theory Spec2Isabelle
  imports Complex_Main
begin

section \<open>Python strings\<close>

text \<open>
  Python \<^verbatim>\<open>str\<close> values are modelled as \<^typ>\<open>string\<close>. The methods of \<^verbatim>\<open>str\<close> that
  the scraper calls are written out on character lists. Case conversion and whitespace
  are those of the ASCII range.
\<close>

definition startswith :: "string \<Rightarrow> string \<Rightarrow> bool" where
  "startswith s p = (take (length p) s = p)"

definition lower_char :: "char \<Rightarrow> char" where
  "lower_char c =
     (if 65 \<le> (of_char c :: nat) \<and> (of_char c :: nat) \<le> 90
      then (case c of Char b0 b1 b2 b3 b4 b5 b6 b7 \<Rightarrow> Char b0 b1 b2 b3 b4 True b6 b7)
      else c)"

definition lower :: "string \<Rightarrow> string" where
  "lower s = map lower_char s"

definition is_space :: "char \<Rightarrow> bool" where
  "is_space c = ((of_char c :: nat) \<in> {9, 10, 11, 12, 13, 28, 29, 30, 31, 32})"

definition is_digit :: "char \<Rightarrow> bool" where
  "is_digit c = (48 \<le> (of_char c :: nat) \<and> (of_char c :: nat) \<le> 57)"

definition rstrip_chars :: "(char \<Rightarrow> bool) \<Rightarrow> string \<Rightarrow> string" where
  "rstrip_chars P s = rev (dropWhile P (rev s))"

definition strip :: "string \<Rightarrow> string" where
  "strip s = rstrip_chars is_space (dropWhile is_space s)"

text \<open>\<^verbatim>\<open>s.replace(old, '')\<close> for a non-empty \<^verbatim>\<open>old\<close>: every occurrence, left to right.\<close>

fun remove_all :: "string \<Rightarrow> string \<Rightarrow> string" where
  "remove_all old [] = []"
| "remove_all old (c # cs) =
     (if old \<noteq> [] \<and> startswith (c # cs) old
      then remove_all old (drop (length old - 1) cs)
      else c # remove_all old cs)"

text \<open>\<^verbatim>\<open>s.split('#')[0]\<close>.\<close>

definition before_hash :: "string \<Rightarrow> string" where
  "before_hash s = takeWhile (\<lambda>c. c \<noteq> CHR ''#'') s"

section \<open>Library interface\<close>

text \<open>
  The scraper is written against \<^verbatim>\<open>urllib.parse\<close>, \<^verbatim>\<open>re\<close>, \<^verbatim>\<open>bs4\<close>, \<^verbatim>\<open>crawl4ai\<close> and
  \<^verbatim>\<open>httpx\<close>. None of them belongs to the repository. What they return is an input of the
  model: the pure library functions are the fields of the record \<open>pylib\<close>, a parsed
  document is the record of the answers of its query methods, and the outcome of a
  network request arrives with the event that completes it.
\<close>

datatype py_exception =
    ValueError string
  | AsyncioTimeoutError
  | PyException string

fun exc_str :: "py_exception \<Rightarrow> string" where
  "exc_str (ValueError m) = m"
| "exc_str AsyncioTimeoutError = []"
| "exc_str (PyException m) = m"

text \<open>The six components of \<^verbatim>\<open>urllib.parse.ParseResult\<close>.\<close>

record parse_result =
  scheme :: string
  netloc :: string
  path :: string
  params :: string
  query :: string
  fragment :: string

text \<open>
  The regular expressions of \<^verbatim>\<open>_extract_contact_comprehensive\<close>, in the order of the list
  \<^verbatim>\<open>phone_patterns\<close>. \<^verbatim>\<open>re.findall\<close> returns strings for a pattern without groups and
  tuples of strings for a pattern with groups (the first phone pattern has three).
\<close>

datatype phone_pattern = PhoneUSCanada | PhoneInternational | PhoneGeneral | PhoneExtended

datatype re_match = MatchStr string | MatchTuple "string list"

text \<open>
  The CSS selectors of the list \<^verbatim>\<open>contact_selectors\<close>, in its order:
  \<^verbatim>\<open>a[href^="mailto:"]\<close>, \<^verbatim>\<open>a[href^="tel:"]\<close>, \<^verbatim>\<open>.contact\<close>, \<^verbatim>\<open>.contact-info\<close>,
  \<^verbatim>\<open>.email\<close>, \<^verbatim>\<open>.phone\<close>, \<^verbatim>\<open>[class*="contact"]\<close>, \<^verbatim>\<open>[id*="contact"]\<close>.
\<close>

datatype contact_selector =
    SelMailto | SelTel | SelContact | SelContactInfo | SelEmail | SelPhone
  | SelClassContact | SelIdContact

text \<open>A tag of the parsed document: its name, its attributes and \<^verbatim>\<open>get_text()\<close>.\<close>

record element =
  el_name :: string
  el_attrs :: "(string \<times> string) list"
  el_text :: string

text \<open>\<^verbatim>\<open>element.get(key, '')\<close>.\<close>

definition el_get :: "element \<Rightarrow> string \<Rightarrow> string" where
  "el_get e k = (case map_of (el_attrs e) k of None \<Rightarrow> [] | Some v \<Rightarrow> v)"

text \<open>
  A \<^verbatim>\<open>BeautifulSoup\<close> object, as the answers of the methods the scraper calls on it:
  \<^verbatim>\<open>get_text()\<close>, \<^verbatim>\<open>get_text(separator=' ', strip=True)\<close>, \<^verbatim>\<open>select(selector)\<close> for
  the contact selectors and \<^verbatim>\<open>find_all('a', href=True)\<close>, each in document order.
\<close>

record soup =
  soup_get_text :: string
  soup_get_text_stripped :: string
  soup_select :: "contact_selector \<Rightarrow> element list"
  soup_a_tags :: "element list"

text \<open>The items of the typed collections that the claims do not look into.\<close>

record text_item =
  ti_content :: string
  ti_page_url :: string
  ti_extraction_method :: string

record image_item =
  im_url :: string
  im_alt_text :: string
  im_page_url :: string

record product_item =
  pr_name :: string
  pr_price :: string
  pr_description :: string
  pr_page_url :: string

record social_item =
  so_platform :: string
  so_url :: string
  so_link_text :: string
  so_page_url :: string

text \<open>
  The library functions. \<open>list_of_set xs\<close> is \<^verbatim>\<open>list(set(xs))\<close>: the iteration order of
  a set of strings is the interpreter's (it depends on the hash seed of the process).
  The four extractors for text, images, products and social links and the tag-reading part
  of the metadata extractor are passed in the same way: they only feed the aggregate.
\<close>

record pylib =
  urlparse :: "string \<Rightarrow> py_exception + parse_result"
  urlunparse :: "parse_result \<Rightarrow> string"
  urljoin :: "string \<Rightarrow> string \<Rightarrow> py_exception + string"
  findall_email :: "string \<Rightarrow> string list"
  findall_phone :: "phone_pattern \<Rightarrow> string \<Rightarrow> re_match list"
  list_of_set :: "string list \<Rightarrow> string list"
  BeautifulSoup :: "string \<Rightarrow> py_exception + soup"
  extract_text_comprehensive :: "soup \<Rightarrow> string \<Rightarrow> string \<Rightarrow> text_item list"
  extract_images_comprehensive :: "soup \<Rightarrow> string \<Rightarrow> image_item list"
  extract_products_comprehensive :: "soup \<Rightarrow> string \<Rightarrow> product_item list"
  extract_social_media_comprehensive :: "soup \<Rightarrow> string \<Rightarrow> social_item list"
  extract_meta_tags :: "soup \<Rightarrow> (string \<times> string) list"

section \<open>URL helpers\<close>

text \<open>\<^verbatim>\<open>helpers.extract_domain_from_url\<close>.\<close>

definition extract_domain_from_url :: "pylib \<Rightarrow> string \<Rightarrow> string" where
  "extract_domain_from_url lib url =
     (case urlparse lib url of
        Inr parsed \<Rightarrow> lower (netloc parsed)
      | Inl e \<Rightarrow> ''unknown_domain'')"

text \<open>\<^verbatim>\<open>parsed.path.rstrip('/') or '/'\<close>.\<close>

definition normalized_path :: "string \<Rightarrow> string" where
  "normalized_path p =
     (if rstrip_chars (\<lambda>c. c = CHR ''/'') p = [] then ''/''
      else rstrip_chars (\<lambda>c. c = CHR ''/'') p)"

text \<open>\<^verbatim>\<open>WebScraper._normalize_url\<close>.\<close>

definition normalize_url :: "pylib \<Rightarrow> string \<Rightarrow> string" where
  "normalize_url lib url =
     (case urlparse lib url of
        Inr parsed \<Rightarrow>
          urlunparse lib
            \<lparr>scheme = scheme parsed, netloc = netloc parsed,
             path = normalized_path (path parsed),
             params = params parsed, query = query parsed, fragment = []\<rparr>
      | Inl e \<Rightarrow> url)"

section \<open>Contact extraction\<close>

text \<open>
  A contact dictionary. The confidence scores are the literals of the source, kept as
  rationals; nothing is computed from them.
\<close>

record contact =
  contact_type :: string
  contact_value :: string
  page_url :: string
  confidence_score :: rat
  extraction_method :: string

definition mk_contact :: "string \<Rightarrow> string \<Rightarrow> string \<Rightarrow> rat \<Rightarrow> string \<Rightarrow> contact" where
  "mk_contact ty v url conf m =
     \<lparr>contact_type = ty, contact_value = v, page_url = url, confidence_score = conf,
      extraction_method = m\<rparr>"

text \<open>The loop over \<^verbatim>\<open>list(set(emails))[:10]\<close>.\<close>

definition regex_email_contacts :: "pylib \<Rightarrow> soup \<Rightarrow> string \<Rightarrow> contact list" where
  "regex_email_contacts lib sp base_url =
     map (\<lambda>email. mk_contact ''email'' (lower email) base_url 0.95 ''regex_pattern_matching'')
       (filter (\<lambda>email. email \<noteq> [] \<and> length email > 5)
         (take 10 (list_of_set lib (findall_email lib (soup_get_text sp)))))"

definition phone_patterns :: "phone_pattern list" where
  "phone_patterns = [PhoneUSCanada, PhoneInternational, PhoneGeneral, PhoneExtended]"

definition all_phone_matches :: "pylib \<Rightarrow> soup \<Rightarrow> re_match list" where
  "all_phone_matches lib sp =
     concat (map (\<lambda>pattern. findall_phone lib pattern (soup_get_text sp)) phone_patterns)"

text \<open>\<^verbatim>\<open>''.join(match)\<close> for a tuple, \<^verbatim>\<open>str(match)\<close> for a string.\<close>

fun phone_str :: "re_match \<Rightarrow> string" where
  "phone_str (MatchTuple gs) = concat gs"
| "phone_str (MatchStr s) = s"

text \<open>\<^verbatim>\<open>re.sub(r'[^\d+]', '', phone_str)\<close>.\<close>

definition phone_clean :: "string \<Rightarrow> string" where
  "phone_clean s = filter (\<lambda>c. is_digit c \<or> c = CHR ''+'') s"

text \<open>The loop over \<^verbatim>\<open>all_phone_matches[:10]\<close>, with the set \<^verbatim>\<open>processed_phones\<close>.\<close>

fun phone_loop :: "string \<Rightarrow> re_match list \<Rightarrow> string set \<Rightarrow> contact list \<Rightarrow> contact list" where
  "phone_loop base_url [] processed_phones contacts = contacts"
| "phone_loop base_url (m # ms) processed_phones contacts =
     (if length (phone_clean (phone_str m)) \<ge> 10 \<and> phone_clean (phone_str m) \<notin> processed_phones
      then phone_loop base_url ms (insert (phone_clean (phone_str m)) processed_phones)
             (contacts @ [mk_contact ''phone'' (phone_str m) base_url 0.8 ''regex_pattern_matching''])
      else phone_loop base_url ms processed_phones contacts)"

definition contact_selectors :: "contact_selector list" where
  "contact_selectors =
     [SelMailto, SelTel, SelContact, SelContactInfo, SelEmail, SelPhone, SelClassContact,
      SelIdContact]"

text \<open>The body of the loop over the elements of one selector.\<close>

definition element_contacts :: "pylib \<Rightarrow> string \<Rightarrow> element \<Rightarrow> contact list" where
  "element_contacts lib base_url el =
     (if el_name el = ''a'' then
        (let href = el_get el ''href'' in
         if startswith href ''mailto:'' then
           (let email = strip (remove_all ''mailto:'' href) in
            if email \<noteq> [] \<and> CHR ''@'' \<in> set email
            then [mk_contact ''email'' (lower email) base_url 0.98 ''html_mailto_link'']
            else [])
         else if startswith href ''tel:'' then
           (let phone = strip (remove_all ''tel:'' href) in
            if phone \<noteq> [] \<and> length phone \<ge> 10
            then [mk_contact ''phone'' phone base_url 0.98 ''html_tel_link'']
            else [])
         else [])
      else
        map (\<lambda>email. mk_contact ''email'' (lower email) base_url 0.90 ''html_element_text'')
          (filter (\<lambda>email. email \<noteq> [] \<and> length email > 5)
            (take 3 (findall_email lib (el_text el)))))"

definition selector_contacts :: "pylib \<Rightarrow> soup \<Rightarrow> string \<Rightarrow> contact list" where
  "selector_contacts lib sp base_url =
     concat (map (\<lambda>selector. concat (map (element_contacts lib base_url) (soup_select sp selector)))
       contact_selectors)"

text \<open>The list \<^verbatim>\<open>contacts\<close> when the last loop starts.\<close>

definition contact_candidates :: "pylib \<Rightarrow> soup \<Rightarrow> string \<Rightarrow> contact list" where
  "contact_candidates lib sp base_url =
     phone_loop base_url (take 10 (all_phone_matches lib sp)) {}
       (regex_email_contacts lib sp base_url)
     @ selector_contacts lib sp base_url"

definition value_key :: "contact \<Rightarrow> string" where
  "value_key c = contact_type c @ '':'' @ contact_value c"

text \<open>The last loop: \<^verbatim>\<open>seen_values\<close> and \<^verbatim>\<open>unique_contacts\<close>.\<close>

fun unique_loop :: "contact list \<Rightarrow> string set \<Rightarrow> contact list \<Rightarrow> contact list" where
  "unique_loop [] seen_values unique_contacts = unique_contacts"
| "unique_loop (c # cs) seen_values unique_contacts =
     (if value_key c \<notin> seen_values
      then unique_loop cs (insert (value_key c) seen_values) (unique_contacts @ [c])
      else unique_loop cs seen_values unique_contacts)"

text \<open>
  \<^verbatim>\<open>WebScraper._extract_contact_comprehensive\<close>. The query methods of the document and the
  regular expression searches are total here, so the \<^verbatim>\<open>except\<close> branch (which returns the
  empty list) is not taken.
\<close>

definition extract_contact_comprehensive :: "pylib \<Rightarrow> soup \<Rightarrow> string \<Rightarrow> contact list" where
  "extract_contact_comprehensive lib sp base_url =
     unique_loop (contact_candidates lib sp base_url) {} []"

section \<open>The aggregate\<close>

text \<open>
  The dictionary of \<^verbatim>\<open>_extract_metadata_comprehensive\<close>: the page, its depth, and the
  fields read from the tags of the document.
\<close>

record page_metadata =
  md_page_url :: string
  md_depth :: int
  md_tags :: "(string \<times> string) list"

text \<open>An entry of \<^verbatim>\<open>crawl_data['sitemap']['crawl_structure']\<close>.\<close>

record sitemap_entry =
  se_depth :: int
  se_links_found :: "string list"
  se_data_extracted :: "string option list"

record coverage_summary =
  total_pages :: nat
  pages_with_text :: nat
  pages_with_images :: nat
  pages_with_contact :: nat
  pages_with_products :: nat
  pages_with_social_media :: nat

record sitemap =
  crawl_structure :: "string \<rightharpoonup> sitemap_entry"
  coverage_summary :: coverage_summary

text \<open>The dictionary \<^verbatim>\<open>self.crawl_data\<close>.\<close>

record crawl_data =
  cd_text :: "text_item list"
  cd_images :: "image_item list"
  cd_contact :: "contact list"
  cd_products :: "product_item list"
  cd_social_media :: "social_item list"
  cd_metadata :: "page_metadata list"
  cd_raw_html :: "string \<rightharpoonup> string"
  cd_sitemap :: sitemap

text \<open>The fields of a \<^verbatim>\<open>WebScraper\<close> instance (\<^verbatim>\<open>debug\<close> only switches logging).\<close>

record scraper =
  max_depth :: int
  timeout :: int
  max_concurrent :: int
  crawled_urls :: "string set"
  crawl_data :: crawl_data
  base_domain :: string

text \<open>The value that \<^verbatim>\<open>reset_crawl_data\<close> assigns.\<close>

definition empty_crawl_data :: crawl_data where
  "empty_crawl_data =
     \<lparr>cd_text = [], cd_images = [], cd_contact = [], cd_products = [], cd_social_media = [],
      cd_metadata = [], cd_raw_html = Map.empty,
      cd_sitemap =
        \<lparr>crawl_structure = Map.empty,
         coverage_summary =
           \<lparr>total_pages = 0, pages_with_text = 0, pages_with_images = 0,
            pages_with_contact = 0, pages_with_products = 0, pages_with_social_media = 0\<rparr>\<rparr>\<rparr>"

definition reset_crawl_data :: "scraper \<Rightarrow> scraper" where
  "reset_crawl_data s = s\<lparr>crawl_data := empty_crawl_data\<rparr>"

text \<open>\<^verbatim>\<open>WebScraper.__init__\<close>, from the three settings it reads.\<close>

definition init_scraper :: "int \<Rightarrow> int \<Rightarrow> int \<Rightarrow> scraper" where
  "init_scraper max_crawl_depth crawl_timeout max_concurrent_requests =
     reset_crawl_data
       \<lparr>max_depth = max_crawl_depth, timeout = crawl_timeout,
        max_concurrent = max_concurrent_requests, crawled_urls = {},
        crawl_data = empty_crawl_data, base_domain = []\<rparr>"

text \<open>
  The loop of \<^verbatim>\<open>_extract_all_links_with_beautifulsoup\<close> over the \<^verbatim>\<open>a\<close> tags, with the
  list \<^verbatim>\<open>links\<close>. An exception of \<^verbatim>\<open>urlparse\<close> or \<^verbatim>\<open>urljoin\<close> leaves the loop, and the
  links found so far are returned.
\<close>

definition skipped_href :: "string \<Rightarrow> bool" where
  "skipped_href href =
     (href = [] \<or> startswith href ''mailto:'' \<or> startswith href ''tel:''
      \<or> startswith href ''javascript:'' \<or> startswith href ''#'')"

definition full_url_of :: "pylib \<Rightarrow> string \<Rightarrow> string \<Rightarrow> py_exception + string" where
  "full_url_of lib base_url href =
     (if startswith href ''//'' then
        (case urlparse lib base_url of
           Inl e \<Rightarrow> Inl e
         | Inr base_parsed \<Rightarrow> Inr (scheme base_parsed @ '':'' @ href))
      else if startswith href ''/'' then
        (case urlparse lib base_url of
           Inl e \<Rightarrow> Inl e
         | Inr base_parsed \<Rightarrow> Inr (scheme base_parsed @ ''://'' @ netloc base_parsed @ href))
      else if \<not> (startswith href ''http://'' \<or> startswith href ''https://'') then
        urljoin lib base_url href
      else Inr href)"

fun links_loop :: "pylib \<Rightarrow> scraper \<Rightarrow> string \<Rightarrow> element list \<Rightarrow> string list \<Rightarrow> string list" where
  "links_loop lib s base_url [] links = links"
| "links_loop lib s base_url (a_tag # a_tags) links =
     (let href = strip (el_get a_tag ''href'') in
      if skipped_href href then links_loop lib s base_url a_tags links
      else
        (case full_url_of lib base_url href of
           Inl e \<Rightarrow> links
         | Inr full_url0 \<Rightarrow>
             (let full_url = (if CHR ''#'' \<in> set full_url0 then before_hash full_url0 else full_url0) in
              if extract_domain_from_url lib full_url = base_domain s
                 \<and> normalize_url lib full_url \<notin> set links
              then links_loop lib s base_url a_tags (links @ [normalize_url lib full_url])
              else links_loop lib s base_url a_tags links)))"

definition extract_all_links_with_beautifulsoup ::
  "pylib \<Rightarrow> scraper \<Rightarrow> string \<Rightarrow> string \<Rightarrow> string list" where
  "extract_all_links_with_beautifulsoup lib s html_content base_url =
     (case BeautifulSoup lib html_content of
        Inl e \<Rightarrow> []
      | Inr sp \<Rightarrow> links_loop lib s base_url (soup_a_tags sp) [])"

definition extract_metadata_comprehensive :: "pylib \<Rightarrow> soup \<Rightarrow> string \<Rightarrow> int \<Rightarrow> page_metadata" where
  "extract_metadata_comprehensive lib sp url depth =
     \<lparr>md_page_url = url, md_depth = depth, md_tags = extract_meta_tags lib sp\<rparr>"

definition flag :: "string \<Rightarrow> 'a list \<Rightarrow> string option" where
  "flag name xs = (if xs \<noteq> [] then Some name else None)"

text \<open>
  \<^verbatim>\<open>WebScraper._extract_comprehensive_data\<close>. When the parser raises, the \<^verbatim>\<open>except\<close>
  branch logs and nothing is stored.
\<close>

definition extract_comprehensive_data ::
  "pylib \<Rightarrow> scraper \<Rightarrow> string \<Rightarrow> string \<Rightarrow> string \<Rightarrow> int \<Rightarrow> scraper" where
  "extract_comprehensive_data lib s url html_content text_content depth =
     (case BeautifulSoup lib html_content of
        Inl e \<Rightarrow> s
      | Inr sp \<Rightarrow>
          (let text_data = extract_text_comprehensive lib sp text_content url;
               image_data = extract_images_comprehensive lib sp url;
               contact_data = extract_contact_comprehensive lib sp url;
               product_data = extract_products_comprehensive lib sp url;
               social_data = extract_social_media_comprehensive lib sp url;
               metadata = extract_metadata_comprehensive lib sp url depth;
               links_found = extract_all_links_with_beautifulsoup lib s html_content url;
               cd = crawl_data s
           in s\<lparr>crawl_data :=
                 \<lparr>cd_text = cd_text cd @ text_data,
                  cd_images = cd_images cd @ image_data,
                  cd_contact = cd_contact cd @ contact_data,
                  cd_products = cd_products cd @ product_data,
                  cd_social_media = cd_social_media cd @ social_data,
                  cd_metadata = cd_metadata cd @ [metadata],
                  cd_raw_html = (cd_raw_html cd)(url \<mapsto> html_content),
                  cd_sitemap =
                    \<lparr>crawl_structure =
                       (crawl_structure (cd_sitemap cd))(url \<mapsto>
                          \<lparr>se_depth = depth, se_links_found = take 10 links_found,
                           se_data_extracted =
                             [flag ''text'' text_data, flag ''images'' image_data,
                              flag ''contact'' contact_data, flag ''products'' product_data,
                              flag ''social_media'' social_data]\<rparr>),
                     coverage_summary = coverage_summary (cd_sitemap cd)\<rparr>\<rparr>\<rparr>))"

text \<open>
  \<^verbatim>\<open>WebScraper._update_coverage_summary\<close>. The items of the five lists are non-empty
  dictionaries, so every one passes the filter \<^verbatim>\<open>if item\<close>.
\<close>

definition update_coverage_summary :: "scraper \<Rightarrow> scraper" where
  "update_coverage_summary s =
     (let cd = crawl_data s in
      s\<lparr>crawl_data := cd\<lparr>cd_sitemap := (cd_sitemap cd)\<lparr>coverage_summary :=
          \<lparr>total_pages = card (crawled_urls s),
           pages_with_text = length (cd_text cd),
           pages_with_images = length (cd_images cd),
           pages_with_contact = length (cd_contact cd),
           pages_with_products = length (cd_products cd),
           pages_with_social_media = length (cd_social_media cd)\<rparr>\<rparr>\<rparr>\<rparr>)"

section \<open>Fetching\<close>

text \<open>
  What \<^verbatim>\<open>crawler.arun\<close> returns. \<open>cr_cleaned_html = None\<close> stands for a result without the
  attribute \<^verbatim>\<open>cleaned_html\<close>; Python's \<^verbatim>\<open>None\<close> in a string field is the empty string here
  (only its truth value is read).
\<close>

record crawl4ai_result =
  cr_success :: bool
  cr_html :: string
  cr_cleaned_html :: "string option"
  cr_markdown :: string
  cr_error_message :: string

text \<open>
  \<^verbatim>\<open>WebScraper._crawl_with_http_crawl4ai\<close>, from the outcome of \<^verbatim>\<open>crawler.arun\<close>: every
  exception leaves as a plain \<^verbatim>\<open>Exception\<close>.
\<close>

definition crawl_with_http_crawl4ai ::
  "py_exception + crawl4ai_result \<Rightarrow> py_exception + string \<times> string" where
  "crawl_with_http_crawl4ai outcome =
     (case outcome of
        Inl e \<Rightarrow> Inl (PyException (''HTTP crawl4ai error: '' @ exc_str e))
      | Inr result \<Rightarrow>
          if cr_success result \<and> cr_html result \<noteq> [] then
            Inr ((case cr_cleaned_html result of Some h \<Rightarrow> h | None \<Rightarrow> cr_html result),
                 cr_markdown result)
          else
            Inl (PyException (''HTTP crawl4ai error: '' @ ''HTTP crawl4ai failed: ''
                   @ cr_error_message result)))"

text \<open>
  \<^verbatim>\<open>WebScraper._crawl_with_httpx\<close>, from the outcome of \<^verbatim>\<open>client.get\<close> and
  \<^verbatim>\<open>raise_for_status\<close> (the text of the response, or the exception).
\<close>

definition crawl_with_httpx ::
  "pylib \<Rightarrow> py_exception + string \<Rightarrow> py_exception + string \<times> string" where
  "crawl_with_httpx lib outcome =
     (case outcome of
        Inl e \<Rightarrow> Inl (PyException (''httpx error: '' @ exc_str e))
      | Inr html_content \<Rightarrow>
          (case BeautifulSoup lib html_content of
             Inl e \<Rightarrow> Inl (PyException (''httpx error: '' @ exc_str e))
           | Inr sp \<Rightarrow> Inr (html_content, soup_get_text_stripped sp)))"

text \<open>
  A request handed to a transport: the URL, the timeout in milliseconds, the
  \<^verbatim>\<open>User-Agent\<close> header when the scraper sets one, and the depth of the page (kept for the
  statements below; the transports do not see it).
\<close>

datatype transport = Crawl4ai | Httpx

record request =
  rq_transport :: transport
  rq_url :: string
  rq_timeout_ms :: int
  rq_user_agent :: "string option"
  rq_depth :: int

definition browser_user_agent :: string where
  "browser_user_agent =
     ''Mozilla/5.0 (Windows NT 10.0; Win64; x64) AppleWebKit/537.36 (KHTML, like Gecko) Chrome/91.0.4472.124 Safari/537.36''"

definition crawl4ai_request :: "scraper \<Rightarrow> string \<Rightarrow> int \<Rightarrow> request" where
  "crawl4ai_request s url depth =
     \<lparr>rq_transport = Crawl4ai, rq_url = url, rq_timeout_ms = min (timeout s * 1000) 30000,
      rq_user_agent = None, rq_depth = depth\<rparr>"

definition httpx_request :: "string \<Rightarrow> int \<Rightarrow> request" where
  "httpx_request url depth =
     \<lparr>rq_transport = Httpx, rq_url = url, rq_timeout_ms = 30000,
      rq_user_agent = Some browser_user_agent, rq_depth = depth\<rparr>"

section \<open>The crawl as a transition system\<close>

text \<open>
  The coroutines of one event loop run one at a time and give up control only at an
  \<^verbatim>\<open>await\<close> that suspends. A task is one call of \<^verbatim>\<open>_crawl_website_comprehensive\<close>
  (for a subpage: of \<^verbatim>\<open>crawl_with_semaphore\<close>); its phase is the \<^verbatim>\<open>await\<close> at which it is
  suspended. \<open>Running\<close> is a task that has the control.
\<close>

datatype phase =
    WaitSemaphore
  | Sleeping
  | Running
  | AwaitCrawl4ai string
  | AwaitHttpx string
  | AwaitGather nat
  | Finished "py_exception option"

text \<open>The caller of a task: a call of \<^verbatim>\<open>scrape_website\<close>, or the batch of a \<^verbatim>\<open>gather\<close>.\<close>

datatype owner = Root nat | Child nat

record task =
  t_url :: string
  t_max_depth :: int
  t_current_depth :: int
  t_owner :: owner
  t_phase :: phase

datatype scrape_error =
    TimeoutError int
  | ScrapingError string string

text \<open>
  The dictionary that \<^verbatim>\<open>scrape_website\<close> returns: its \<^verbatim>\<open>metadata\<close>, and the collections
  of \<^verbatim>\<open>self.crawl_data\<close> (which the source regroups under \<^verbatim>\<open>data\<close>, \<^verbatim>\<open>raw_html\<close> and
  \<^verbatim>\<open>sitemap\<close>). Times are in milliseconds; the rounding of the processing time to two
  decimals is left out.
\<close>

record result_metadata =
  rm_scraping_timestamp :: nat
  rm_source_url :: string
  rm_company_name :: string
  rm_crawl_depth :: int
  rm_total_pages_crawled :: nat
  rm_processing_time :: nat
  rm_base_domain :: string

record crawl_result =
  res_metadata :: result_metadata
  res_data :: crawl_data

text \<open>One call of \<^verbatim>\<open>scrape_website\<close>: its arguments, its local variables, its outcome.\<close>

record call =
  call_url :: string
  call_company_name :: string
  call_crawl_depth :: int
  call_start_time :: nat
  call_result :: "(scrape_error + crawl_result) option"

text \<open>
  The process: the module-level instance \<^verbatim>\<open>web_scraper\<close>, the tasks of the event loop, the
  value of the semaphore of every batch, the calls of \<^verbatim>\<open>scrape_website\<close>, the requests
  made so far and the clock.
\<close>

record config =
  self :: scraper
  tasks :: "task list"
  semaphores :: "int list"
  calls :: "call list"
  fetch_log :: "request list"
  clock :: nat

definition set_phase :: "config \<Rightarrow> nat \<Rightarrow> phase \<Rightarrow> config" where
  "set_phase c i ph = c\<lparr>tasks := (tasks c)[i := (tasks c ! i)\<lparr>t_phase := ph\<rparr>]\<rparr>"

text \<open>
  What \<^verbatim>\<open>scrape_website\<close> hands to its caller when the root call of
  \<^verbatim>\<open>_crawl_website_comprehensive\<close> has returned (\<open>None\<close>) or raised: the result dictionary,
  or the exception of one of the two \<^verbatim>\<open>except\<close> clauses.
\<close>

definition scrape_website_return ::
  "config \<Rightarrow> nat \<Rightarrow> py_exception option \<Rightarrow> scrape_error + crawl_result" where
  "scrape_website_return c k outcome =
     (let cl = calls c ! k; s = self c in
      case outcome of
        None \<Rightarrow>
          Inr \<lparr>res_metadata =
                 \<lparr>rm_scraping_timestamp = clock c, rm_source_url = call_url cl,
                  rm_company_name = call_company_name cl,
                  rm_crawl_depth = call_crawl_depth cl,
                  rm_total_pages_crawled = card (crawled_urls s),
                  rm_processing_time = clock c - call_start_time cl,
                  rm_base_domain = base_domain s\<rparr>,
               res_data = crawl_data s\<rparr>
      | Some AsyncioTimeoutError \<Rightarrow> Inl (TimeoutError (timeout s))
      | Some e \<Rightarrow>
          Inl (ScrapingError (''Failed to scrape '' @ call_url cl @ '': '' @ exc_str e)
                 (call_url cl)))"

text \<open>
  The end of \<^verbatim>\<open>scrape_website\<close>: after a normal return of the root call the coverage
  summary is updated, then the call ends with the value above.
\<close>

definition scrape_website_end :: "config \<Rightarrow> nat \<Rightarrow> py_exception option \<Rightarrow> config" where
  "scrape_website_end c k outcome =
     (let c1 = (case outcome of
                  None \<Rightarrow> c\<lparr>self := update_coverage_summary (self c)\<rparr>
                | Some e \<Rightarrow> c)
      in c1\<lparr>calls := (calls c)[k := (calls c ! k)\<lparr>call_result :=
               Some (scrape_website_return c1 k outcome)\<rparr>]\<rparr>)"

text \<open>
  A task ends. A subpage task leaves \<^verbatim>\<open>async with semaphore\<close> and releases it; its
  exception, if any, stays in the result list of \<^verbatim>\<open>gather(..., return_exceptions=True)\<close>.
  The root task returns into \<^verbatim>\<open>scrape_website\<close>.
\<close>

definition finish :: "config \<Rightarrow> nat \<Rightarrow> py_exception option \<Rightarrow> config" where
  "finish c i outcome =
     (let c1 = set_phase c i (Finished outcome) in
      case t_owner (tasks c ! i) of
        Child b \<Rightarrow> c1\<lparr>semaphores := (semaphores c1)[b := semaphores c1 ! b + 1]\<rparr>
      | Root k \<Rightarrow> scrape_website_end c1 k outcome)"

text \<open>
  \<^verbatim>\<open>WebScraper._crawl_subpages\<close> up to \<^verbatim>\<open>await asyncio.gather\<close>, called by task \<open>i\<close>.
  \<^verbatim>\<open>asyncio.Semaphore\<close> raises \<^verbatim>\<open>ValueError\<close> for a negative value.
\<close>

definition crawl_subpages :: "config \<Rightarrow> nat \<Rightarrow> string list \<Rightarrow> int \<Rightarrow> int \<Rightarrow> config" where
  "crawl_subpages c i links max_depth' current_depth =
     (if links = [] \<or> current_depth > max_depth' then finish c i None
      else
        (let new_links = filter (\<lambda>link. link \<notin> crawled_urls (self c)) links;
             permits = min (max_concurrent (self c)) 3
         in if permits < 0
            then finish c i (Some (ValueError ''Semaphore initial value must be >= 0''))
            else
              (let batch_size = min 10 (length new_links);
                   batch = take batch_size new_links;
                   b = length (semaphores c)
               in if batch = [] then finish c i None
                  else
                    (set_phase c i (AwaitGather b))
                      \<lparr>tasks := tasks (set_phase c i (AwaitGather b))
                         @ map (\<lambda>link. \<lparr>t_url = link, t_max_depth = max_depth',
                                  t_current_depth = current_depth, t_owner = Child b,
                                  t_phase = WaitSemaphore\<rparr>) batch,
                       semaphores := semaphores c @ [permits]\<rparr>)))"

text \<open>
  \<^verbatim>\<open>_crawl_website_comprehensive\<close> from \<^verbatim>\<open>if html_content:\<close> on, for task \<open>i\<close> that has
  fetched \<open>normalized_url\<close>.
\<close>

definition process_page :: "pylib \<Rightarrow> config \<Rightarrow> nat \<Rightarrow> string \<Rightarrow> string \<Rightarrow> string \<Rightarrow> config" where
  "process_page lib c i normalized_url html_content text_content =
     (let t = tasks c ! i in
      if html_content \<noteq> [] then
        (let c1 = c\<lparr>self := extract_comprehensive_data lib (self c) normalized_url html_content
                              text_content (t_current_depth t)\<rparr>
         in if t_current_depth t < t_max_depth t
            then crawl_subpages c1 i
                   (extract_all_links_with_beautifulsoup lib (self c1) html_content normalized_url)
                   (t_max_depth t) (t_current_depth t + 1)
            else finish c1 i None)
      else finish c i None)"

text \<open>
  \<^verbatim>\<open>_crawl_website_comprehensive\<close> from its first line to
  \<^verbatim>\<open>await self._crawl_with_http_crawl4ai(normalized_url)\<close>, for task \<open>i\<close>.
\<close>

definition crawl_website_comprehensive :: "pylib \<Rightarrow> config \<Rightarrow> nat \<Rightarrow> config" where
  "crawl_website_comprehensive lib c i =
     (let t = tasks c ! i; s = self c in
      if t_current_depth t > t_max_depth t \<or> t_url t \<in> crawled_urls s then finish c i None
      else
        (let normalized_url = normalize_url lib (t_url t) in
         if normalized_url \<in> crawled_urls s then finish c i None
         else if extract_domain_from_url lib normalized_url \<noteq> base_domain s then finish c i None
         else
           (set_phase c i (AwaitCrawl4ai normalized_url))
             \<lparr>self := s\<lparr>crawled_urls := insert normalized_url (crawled_urls s)\<rparr>,
              fetch_log := fetch_log c @ [crawl4ai_request s normalized_url (t_current_depth t)]\<rparr>))"

text \<open>
  What the event loop can do next. \<open>Acquire i\<close>: task \<open>i\<close> gets the semaphore of its batch
  and starts \<^verbatim>\<open>asyncio.sleep(0.5)\<close>. \<open>Wake i\<close>: the sleep is over and the task calls
  \<^verbatim>\<open>_crawl_website_comprehensive\<close>. \<open>Crawl4aiDone i r\<close> and \<open>HttpxDone i r\<close>: the transport
  answers task \<open>i\<close> with \<open>r\<close>. \<open>GatherDone i\<close>: every task of the batch of task \<open>i\<close> has
  ended and \<^verbatim>\<open>gather\<close> returns. \<open>Tick d\<close>: \<open>d\<close> milliseconds pass.
\<close>

datatype event =
    Acquire nat
  | Wake nat
  | Crawl4aiDone nat "py_exception + crawl4ai_result"
  | HttpxDone nat "py_exception + string"
  | GatherDone nat
  | Tick nat

definition batch_done :: "config \<Rightarrow> nat \<Rightarrow> bool" where
  "batch_done c b =
     list_all (\<lambda>t. t_owner t = Child b \<longrightarrow> (case t_phase t of Finished r \<Rightarrow> True | _ \<Rightarrow> False))
       (tasks c)"

text \<open>An event that the state does not enable changes nothing.\<close>

fun step :: "pylib \<Rightarrow> config \<Rightarrow> event \<Rightarrow> config" where
  "step lib c (Tick d) = c\<lparr>clock := clock c + d\<rparr>"
| "step lib c (Acquire i) =
     (if i < length (tasks c) then
        (case (t_phase (tasks c ! i), t_owner (tasks c ! i)) of
           (WaitSemaphore, Child b) \<Rightarrow>
             if semaphores c ! b > 0
             then (set_phase c i Sleeping)\<lparr>semaphores := (semaphores c)[b := semaphores c ! b - 1]\<rparr>
             else c
         | _ \<Rightarrow> c)
      else c)"
| "step lib c (Wake i) =
     (if i < length (tasks c) then
        (case t_phase (tasks c ! i) of
           Sleeping \<Rightarrow> crawl_website_comprehensive lib (set_phase c i Running) i
         | _ \<Rightarrow> c)
      else c)"
| "step lib c (Crawl4aiDone i r) =
     (if i < length (tasks c) then
        (case t_phase (tasks c ! i) of
           AwaitCrawl4ai normalized_url \<Rightarrow>
             (case crawl_with_http_crawl4ai r of
                Inr (html_content, text_content) \<Rightarrow>
                  process_page lib (set_phase c i Running) i normalized_url html_content text_content
              | Inl e \<Rightarrow>
                  (set_phase c i (AwaitHttpx normalized_url))
                    \<lparr>fetch_log := fetch_log c
                       @ [httpx_request normalized_url (t_current_depth (tasks c ! i))]\<rparr>)
         | _ \<Rightarrow> c)
      else c)"
| "step lib c (HttpxDone i r) =
     (if i < length (tasks c) then
        (case t_phase (tasks c ! i) of
           AwaitHttpx normalized_url \<Rightarrow>
             (case crawl_with_httpx lib r of
                Inr (html_content, text_content) \<Rightarrow>
                  process_page lib (set_phase c i Running) i normalized_url html_content text_content
              | Inl e2 \<Rightarrow> finish c i None)
         | _ \<Rightarrow> c)
      else c)"
| "step lib c (GatherDone i) =
     (if i < length (tasks c) then
        (case t_phase (tasks c ! i) of
           AwaitGather b \<Rightarrow> if batch_done c b then finish c i None else c
         | _ \<Rightarrow> c)
      else c)"

definition run :: "pylib \<Rightarrow> config \<Rightarrow> event list \<Rightarrow> config" where
  "run lib c evs = foldl (step lib) c evs"

text \<open>\<^verbatim>\<open>max_depth or self.max_depth\<close>: the default for \<^verbatim>\<open>None\<close> and for \<open>0\<close>.\<close>

definition crawl_depth :: "scraper \<Rightarrow> int option \<Rightarrow> int" where
  "crawl_depth s max_depth' =
     (case max_depth' of Some d \<Rightarrow> if d \<noteq> 0 then d else max_depth s | None \<Rightarrow> max_depth s)"

text \<open>
  \<^verbatim>\<open>WebScraper.scrape_website\<close> from its first line to the first \<^verbatim>\<open>await\<close> that suspends
  (inside the root call of \<^verbatim>\<open>_crawl_website_comprehensive\<close>).
\<close>

definition scrape_website_begin ::
  "pylib \<Rightarrow> config \<Rightarrow> string \<Rightarrow> string \<Rightarrow> int option \<Rightarrow> config" where
  "scrape_website_begin lib c url company_name max_depth' =
     (let s = reset_crawl_data ((self c)\<lparr>crawled_urls := {}\<rparr>);
          s1 = s\<lparr>base_domain := extract_domain_from_url lib url\<rparr>;
          k = length (calls c);
          i = length (tasks c)
      in crawl_website_comprehensive lib
           (c\<lparr>self := s1,
              calls := calls c @ [\<lparr>call_url = url, call_company_name = company_name,
                         call_crawl_depth = crawl_depth s1 max_depth',
                         call_start_time = clock c, call_result = None\<rparr>],
              tasks := tasks c @ [\<lparr>t_url = url, t_max_depth = crawl_depth s1 max_depth',
                         t_current_depth = 0, t_owner = Root k, t_phase = Running\<rparr>]\<rparr>)
           i)"

text \<open>
  A process in which nothing runs: the instance in state \<open>s\<close> (as \<^verbatim>\<open>__init__\<close> or earlier
  calls left it), no task, no call.
\<close>

definition idle :: "scraper \<Rightarrow> nat \<Rightarrow> config" where
  "idle s now = \<lparr>self = s, tasks = [], semaphores = [], calls = [], fetch_log = [], clock = now\<rparr>"

text \<open>
  One crawl session: a call of \<^verbatim>\<open>scrape_website\<close> in an idle process, followed by the
  events \<open>evs\<close>. Its result is \<open>None\<close> as long as the call has not returned.
\<close>

definition session ::
  "pylib \<Rightarrow> scraper \<Rightarrow> nat \<Rightarrow> string \<Rightarrow> string \<Rightarrow> int option \<Rightarrow> event list \<Rightarrow> config" where
  "session lib s now url company_name max_depth' evs =
     run lib (scrape_website_begin lib (idle s now) url company_name max_depth') evs"

definition scrape_website ::
  "pylib \<Rightarrow> scraper \<Rightarrow> nat \<Rightarrow> string \<Rightarrow> string \<Rightarrow> int option \<Rightarrow> event list
   \<Rightarrow> (scrape_error + crawl_result) option" where
  "scrape_website lib s now url company_name max_depth' evs =
     call_result (calls (session lib s now url company_name max_depth' evs) ! 0)"

text \<open>
  Several requests served by one process: a new call of \<^verbatim>\<open>scrape_website\<close> on the shared
  instance may begin between any two events of the calls that are under way.
\<close>

datatype server_event =
    NewCall string string "int option"
  | Loop event

fun serve_step :: "pylib \<Rightarrow> config \<Rightarrow> server_event \<Rightarrow> config" where
  "serve_step lib c (NewCall url company_name max_depth') =
     scrape_website_begin lib c url company_name max_depth'"
| "serve_step lib c (Loop ev) = step lib c ev"

definition serve :: "pylib \<Rightarrow> config \<Rightarrow> server_event list \<Rightarrow> config" where
  "serve lib c evs = foldl (serve_step lib) c evs"

section \<open>A concrete library for examples\<close>

text \<open>
  The statements below hold for every library. To run the model on concrete inputs, the
  functions of \<^verbatim>\<open>urllib.parse\<close> are written out after CPython 3.11
  (\<^verbatim>\<open>Lib/urllib/parse.py\<close>: \<^verbatim>\<open>urlsplit\<close>, \<^verbatim>\<open>urlparse\<close>, \<^verbatim>\<open>_splitparams\<close>,
  \<^verbatim>\<open>urlunparse\<close>, \<^verbatim>\<open>urlunsplit\<close>), without the NFKC check of the host and the check of
  bracketed hosts beyond the matching of the brackets.
\<close>

definition scheme_char :: "char \<Rightarrow> bool" where
  "scheme_char c =
     (let n = (of_char c :: nat) in
      (65 \<le> n \<and> n \<le> 90) \<or> (97 \<le> n \<and> n \<le> 122) \<or> (48 \<le> n \<and> n \<le> 57)
      \<or> c \<in> {CHR ''+'', CHR ''-'', CHR ''.''})"

definition ascii_alpha :: "char \<Rightarrow> bool" where
  "ascii_alpha c =
     (let n = (of_char c :: nat) in (65 \<le> n \<and> n \<le> 90) \<or> (97 \<le> n \<and> n \<le> 122))"

definition uses_params :: "string list" where
  "uses_params =
     [[], ''ftp'', ''hdl'', ''prospero'', ''http'', ''imap'', ''https'', ''shttp'', ''rtsp'',
      ''rtspu'', ''sip'', ''sips'', ''mms'', ''sftp'', ''tel'']"

definition uses_netloc :: "string list" where
  "uses_netloc =
     [[], ''ftp'', ''http'', ''gopher'', ''nntp'', ''telnet'', ''imap'', ''wais'', ''file'',
      ''mms'', ''https'', ''shttp'', ''snews'', ''prospero'', ''rtsp'', ''rtspu'', ''rsync'',
      ''svn'', ''svn+ssh'', ''sftp'', ''nfs'', ''git'', ''git+ssh'', ''ws'', ''wss'']"

text \<open>\<^verbatim>\<open>s.split(c, 1)\<close> of a string that contains \<open>c\<close>; \<open>(s, '')\<close> otherwise.\<close>

definition split_first :: "char \<Rightarrow> string \<Rightarrow> string \<times> string" where
  "split_first c s = (takeWhile (\<lambda>x. x \<noteq> c) s, drop 1 (dropWhile (\<lambda>x. x \<noteq> c) s))"

definition split_scheme :: "string \<Rightarrow> string \<times> string" where
  "split_scheme url =
     (let pre = takeWhile (\<lambda>x. x \<noteq> CHR '':'') url in
      if CHR '':'' \<in> set url \<and> pre \<noteq> [] \<and> ascii_alpha (hd url) \<and> list_all scheme_char pre
      then (lower pre, drop (Suc (length pre)) url)
      else ([], url))"

definition split_netloc :: "string \<Rightarrow> string \<times> string" where
  "split_netloc url =
     (if startswith url ''//''
      then (takeWhile (\<lambda>x. x \<notin> {CHR ''/'', CHR ''?'', CHR ''#''}) (drop 2 url),
            dropWhile (\<lambda>x. x \<notin> {CHR ''/'', CHR ''?'', CHR ''#''}) (drop 2 url))
      else ([], url))"

definition splitparams :: "string \<Rightarrow> string \<times> string" where
  "splitparams url =
     (let seg = rev (takeWhile (\<lambda>x. x \<noteq> CHR ''/'') (rev url));
          pre = rev (dropWhile (\<lambda>x. x \<noteq> CHR ''/'') (rev url))
      in if CHR '';'' \<in> set seg
         then (pre @ takeWhile (\<lambda>x. x \<noteq> CHR '';'') seg,
               drop 1 (dropWhile (\<lambda>x. x \<noteq> CHR '';'') seg))
         else (url, []))"

definition py_urlparse :: "string \<Rightarrow> py_exception + parse_result" where
  "py_urlparse url0 =
     (let url1 = filter (\<lambda>x. x \<notin> {CHR 0x09, CHR 0x0A, CHR 0x0D})
                   (dropWhile (\<lambda>x. (of_char x :: nat) \<le> 32) url0);
          (sch, url2) = split_scheme url1;
          (nl, url3) = split_netloc url2
      in if (CHR ''['' \<in> set nl \<and> CHR '']'' \<notin> set nl) \<or> (CHR '']'' \<in> set nl \<and> CHR ''['' \<notin> set nl)
         then Inl (ValueError ''Invalid IPv6 URL'')
         else
           (let (url4, frag) = split_first CHR ''#'' url3;
                (url5, qry) = split_first CHR ''?'' url4;
                (pth, prm) = (if sch \<in> set uses_params \<and> CHR '';'' \<in> set url5
                              then splitparams url5 else (url5, []))
            in Inr \<lparr>scheme = sch, netloc = nl, path = pth, params = prm, query = qry,
                    fragment = frag\<rparr>))"

definition py_urlunparse :: "parse_result \<Rightarrow> string" where
  "py_urlunparse p =
     (let url = (if params p \<noteq> [] then path p @ '';'' @ params p else path p);
          url1 = (if netloc p \<noteq> []
                     \<or> (scheme p \<noteq> [] \<and> scheme p \<in> set uses_netloc \<and> \<not> startswith url ''//'')
                  then ''//'' @ netloc p
                       @ (if url \<noteq> [] \<and> \<not> startswith url ''/'' then ''/'' @ url else url)
                  else url);
          url2 = (if scheme p \<noteq> [] then scheme p @ '':'' @ url1 else url1);
          url3 = (if query p \<noteq> [] then url2 @ ''?'' @ query p else url2)
      in if fragment p \<noteq> [] then url3 @ ''#'' @ fragment p else url3)"

text \<open>
  The rest of the example library. Relative references are not resolved (\<open>urljoin\<close>
  raises), the e-mail search returns the words that contain an \<open>@\<close>, the phone searches
  find nothing, \<^verbatim>\<open>list(set(xs))\<close> keeps the order of first occurrence, and a document is
  the list of its words: a word \<open>href=u\<close> is an \<^verbatim>\<open>a\<close> tag with that target.
\<close>

fun words :: "string \<Rightarrow> string \<Rightarrow> string list" where
  "words w [] = (if w = [] then [] else [w])"
| "words w (c # cs) =
     (if c = CHR '' '' then (if w = [] then words [] cs else w # words [] cs)
      else words (w @ [c]) cs)"

definition example_soup :: "string \<Rightarrow> soup" where
  "example_soup html =
     \<lparr>soup_get_text = html, soup_get_text_stripped = strip html,
      soup_select = (\<lambda>selector.
        if selector = SelMailto
        then map (\<lambda>w. \<lparr>el_name = ''a'', el_attrs = [(''href'', drop 5 w)], el_text = []\<rparr>)
               (filter (\<lambda>w. startswith w ''href=mailto:'') (words [] html))
        else []),
      soup_a_tags =
        map (\<lambda>w. \<lparr>el_name = ''a'', el_attrs = [(''href'', drop 5 w)], el_text = []\<rparr>)
          (filter (\<lambda>w. startswith w ''href='') (words [] html))\<rparr>"

definition example_lib :: pylib where
  "example_lib =
     \<lparr>urlparse = py_urlparse, urlunparse = py_urlunparse,
      urljoin = (\<lambda>base url. Inl (ValueError ''relative reference'')),
      findall_email = (\<lambda>s. filter (\<lambda>w. CHR ''@'' \<in> set w \<and> \<not> startswith w ''href='') (words [] s)),
      findall_phone = (\<lambda>pattern s. []),
      list_of_set = remdups,
      BeautifulSoup = (\<lambda>html. Inr (example_soup html)),
      extract_text_comprehensive = (\<lambda>sp text_content url. []),
      extract_images_comprehensive = (\<lambda>sp url. []),
      extract_products_comprehensive = (\<lambda>sp url. []),
      extract_social_media_comprehensive = (\<lambda>sp url. []),
      extract_meta_tags = (\<lambda>sp. [])\<rparr>"

text \<open>The same library in a process whose sets iterate in the opposite order.\<close>

definition example_lib_rev :: pylib where
  "example_lib_rev = example_lib\<lparr>list_of_set := (\<lambda>xs. rev (remdups xs))\<rparr>"

text \<open>A successful answer of \<^verbatim>\<open>crawler.arun\<close> with the given HTML.\<close>

definition page :: "string \<Rightarrow> py_exception + crawl4ai_result" where
  "page html =
     Inr \<lparr>cr_success = True, cr_html = html, cr_cleaned_html = Some html, cr_markdown = html,
          cr_error_message = []\<rparr>"

text \<open>A page whose text holds eleven addresses.\<close>

definition eleven_addresses :: string where
  "eleven_addresses =
     ''a@x.io b@x.io c@x.io d@x.io e@x.io f@x.io g@x.io h@x.io i@x.io j@x.io k@x.io''"

section \<open>Invariants of a crawl session\<close>

text \<open>The URLs requested from one transport, in the order of the requests.\<close>

definition urls_of :: "transport \<Rightarrow> request list \<Rightarrow> string list" where
  "urls_of tr rqs = map rq_url (filter (\<lambda>r. rq_transport r = tr) rqs)"

text \<open>The sitemap entries of an instance.\<close>

definition structure_of :: "scraper \<Rightarrow> string \<rightharpoonup> sitemap_entry" where
  "structure_of s = crawl_structure (cd_sitemap (crawl_data s))"

text \<open>The URL whose answer a task is waiting for.\<close>

fun waits_for :: "phase \<Rightarrow> string option" where
  "waits_for (AwaitCrawl4ai u) = Some u"
| "waits_for (AwaitHttpx u) = Some u"
| "waits_for ph = None"

text \<open>The phases from which a task can still start or continue a fetch.\<close>

fun before_fetch :: "phase \<Rightarrow> bool" where
  "before_fetch WaitSemaphore = True"
| "before_fetch Sleeping = True"
| "before_fetch (AwaitCrawl4ai u) = True"
| "before_fetch (AwaitHttpx u) = True"
| "before_fetch ph = False"

text \<open>An aggregate within depth \<open>D\<close> whose pages are among the URLs \<open>V\<close>: every sitemap entry
  and metadata record is at depth at most \<open>D\<close>, raw HTML is stored for exactly the pages of
  the sitemap, and the metadata and contact records name pages of the sitemap.\<close>

definition data_ok :: "int \<Rightarrow> string set \<Rightarrow> crawl_data \<Rightarrow> bool" where
  "data_ok D V cd \<longleftrightarrow>
     dom (crawl_structure (cd_sitemap cd)) \<subseteq> V
     \<and> dom (cd_raw_html cd) = dom (crawl_structure (cd_sitemap cd))
     \<and> (\<forall>e\<in>ran (crawl_structure (cd_sitemap cd)). se_depth e \<le> D)
     \<and> (\<forall>m\<in>set (cd_metadata cd). md_depth m \<le> D
            \<and> md_page_url m \<in> dom (crawl_structure (cd_sitemap cd)))
     \<and> (\<forall>x\<in>set (cd_contact cd). page_url x \<in> dom (crawl_structure (cd_sitemap cd)))"

text \<open>What a call may have returned: never a \<^verbatim>\<open>TimeoutError\<close>; a result is within depth
  \<open>D\<close>, and its page count is the one of its metadata and bounds its sitemap.\<close>

definition outcome_ok :: "int \<Rightarrow> string set \<Rightarrow> (scrape_error + crawl_result) option \<Rightarrow> bool" where
  "outcome_ok D V out \<longleftrightarrow>
     (case out of
        None \<Rightarrow> True
      | Some (Inl e) \<Rightarrow> (\<forall>n. e \<noteq> TimeoutError n)
      | Some (Inr r) \<Rightarrow>
          data_ok D V (res_data r)
          \<and> total_pages (coverage_summary (cd_sitemap (res_data r)))
              = rm_total_pages_crawled (res_metadata r)
          \<and> card (dom (crawl_structure (cd_sitemap (res_data r))))
              \<le> total_pages (coverage_summary (cd_sitemap (res_data r)))
          \<and> rm_crawl_depth (res_metadata r) = D)"

text \<open>A task of a session of depth \<open>D\<close> with visited set \<open>V\<close> and \<open>n\<close> calls.\<close>

definition task_ok :: "int \<Rightarrow> string set \<Rightarrow> nat \<Rightarrow> task \<Rightarrow> bool" where
  "task_ok D V n t \<longleftrightarrow>
     t_max_depth t = D
     \<and> (\<forall>k. t_owner t = Root k \<longrightarrow> k < n)
     \<and> (before_fetch (t_phase t) \<longrightarrow> t_current_depth t \<le> D)
     \<and> (\<forall>u. waits_for (t_phase t) = Some u \<longrightarrow> u \<in> V)
     \<and> t_phase t \<noteq> Finished (Some AsyncioTimeoutError)"

text \<open>A call of depth \<open>D\<close>.\<close>

definition call_ok :: "int \<Rightarrow> string set \<Rightarrow> call \<Rightarrow> bool" where
  "call_ok D V cl \<longleftrightarrow> call_crawl_depth cl = D \<and> outcome_ok D V (call_result cl)"

text \<open>The invariant of a session of depth \<open>D\<close>, on the visited set \<open>V\<close>, the base domain
  \<open>B\<close>, the requests, the tasks, the aggregate and the calls.\<close>

definition state_ok ::
  "pylib \<Rightarrow> int \<Rightarrow> string set \<Rightarrow> string \<Rightarrow> request list \<Rightarrow> task list \<Rightarrow> crawl_data
   \<Rightarrow> call list \<Rightarrow> bool" where
  "state_ok lib D V B rqs ts cd cls \<longleftrightarrow>
     finite V
     \<and> (\<forall>u\<in>V. extract_domain_from_url lib u = B)
     \<and> set (urls_of Crawl4ai rqs) = V
     \<and> distinct (urls_of Crawl4ai rqs)
     \<and> set (urls_of Httpx rqs) \<subseteq> V
     \<and> (\<forall>t\<in>set ts. task_ok D V (length cls) t)
     \<and> (\<forall>r\<in>set rqs. rq_depth r \<le> D)
     \<and> data_ok D V cd
     \<and> (\<forall>cl\<in>set cls. call_ok D V cl)"

text \<open>The invariant on a process.\<close>

definition crawl_inv :: "pylib \<Rightarrow> int \<Rightarrow> config \<Rightarrow> bool" where
  "crawl_inv lib D c \<longleftrightarrow>
     state_ok lib D (crawled_urls (self c)) (base_domain (self c)) (fetch_log c) (tasks c)
       (crawl_data (self c)) (calls c)"

text \<open>The number of tasks that wait for the primary transport on a URL.\<close>

definition awaiting_primary :: "task list \<Rightarrow> string \<Rightarrow> nat" where
  "awaiting_primary ts u = length (filter (\<lambda>t. t_phase t = AwaitCrawl4ai u) ts)"

text \<open>The same number without task \<open>i\<close>.\<close>

definition others :: "config \<Rightarrow> nat \<Rightarrow> string \<Rightarrow> nat" where
  "others c i u = awaiting_primary (tasks (set_phase c i Running)) u"

text \<open>For every URL, a task waiting for the primary transport and a request to the
  fallback transport exclude each other, and there is at most one of either.\<close>

definition fallback_inv :: "config \<Rightarrow> bool" where
  "fallback_inv c \<longleftrightarrow>
     (\<forall>u. awaiting_primary (tasks c) u + count_list (urls_of Httpx (fetch_log c)) u \<le> 1)"

section \<open>Properties of the URL helpers\<close>

lemma rstrip_chars_decomp:
  "\<exists>k. s = rstrip_chars (\<lambda>c. c = x) s @ replicate k x"
proof -
  have "rev s = takeWhile (\<lambda>c. c = x) (rev s) @ dropWhile (\<lambda>c. c = x) (rev s)"
    by simp
  then have "s = rev (dropWhile (\<lambda>c. c = x) (rev s)) @ rev (takeWhile (\<lambda>c. c = x) (rev s))"
    by (metis rev_append rev_rev_ident)
  moreover have "takeWhile (\<lambda>c. c = x) ys = replicate (length (takeWhile (\<lambda>c. c = x) ys)) x" for ys
    by (induction ys) auto
  ultimately have "s = rstrip_chars (\<lambda>c. c = x) s
      @ replicate (length (takeWhile (\<lambda>c. c = x) (rev s))) x"
    by (metis rstrip_chars_def rev_replicate)
  then show ?thesis ..
qed

lemma rstrip_chars_last:
  "rstrip_chars P s \<noteq> [] \<Longrightarrow> \<not> P (last (rstrip_chars P s))"
  unfolding rstrip_chars_def by (simp add: last_rev hd_dropWhile)

lemma normalized_path_props:
  "normalized_path p \<noteq> []"
  "normalized_path p = ''/'' \<or> last (normalized_path p) \<noteq> CHR ''/''"
  "(\<exists>k. p = normalized_path p @ replicate k CHR ''/'') \<or>
   (normalized_path p = ''/'' \<and> (\<exists>k. p = replicate k CHR ''/''))"
proof -
  show "normalized_path p \<noteq> []" by (simp add: normalized_path_def)
  show "normalized_path p = ''/'' \<or> last (normalized_path p) \<noteq> CHR ''/''"
    using rstrip_chars_last [of "\<lambda>c. c = CHR ''/''" p] by (simp add: normalized_path_def)
  show "(\<exists>k. p = normalized_path p @ replicate k CHR ''/'') \<or>
   (normalized_path p = ''/'' \<and> (\<exists>k. p = replicate k CHR ''/''))"
    using rstrip_chars_decomp [of p "CHR ''/''"] by (auto simp: normalized_path_def)
qed

text \<open>
  Claim C9. \<^verbatim>\<open>_normalize_url\<close> returns its argument unchanged when \<^verbatim>\<open>urlparse\<close> raises.
  Otherwise it returns \<^verbatim>\<open>urlunparse\<close> of six components: the scheme, the host part, the
  parameters and the query are those of the parsed URL, the fragment is empty, and the
  path is the parsed path without its trailing slashes, or \<open>/\<close> when nothing else is
  left of it.
\<close>

theorem normalize_url_components:
  "(\<forall>e. urlparse lib url = Inl e \<longrightarrow> normalize_url lib url = url) \<and>
   (\<forall>p. urlparse lib url = Inr p \<longrightarrow>
      (\<exists>q. normalize_url lib url = urlunparse lib q
         \<and> scheme q = scheme p \<and> netloc q = netloc p \<and> params q = params p
         \<and> query q = query p \<and> fragment q = []
         \<and> path q \<noteq> []
         \<and> (path q = ''/'' \<or> last (path q) \<noteq> CHR ''/'')
         \<and> ((\<exists>k. path p = path q @ replicate k CHR ''/'')
            \<or> (path q = ''/'' \<and> (\<exists>k. path p = replicate k CHR ''/'')))))"
proof (intro conjI allI impI)
  fix e assume "urlparse lib url = Inl e"
  then show "normalize_url lib url = url" by (simp add: normalize_url_def)
next
  fix p assume p: "urlparse lib url = Inr p"
  let ?q = "\<lparr>scheme = scheme p, netloc = netloc p, path = normalized_path (path p),
             params = params p, query = query p, fragment = []\<rparr>"
  have "normalize_url lib url = urlunparse lib ?q" using p by (simp add: normalize_url_def)
  then show "\<exists>q. normalize_url lib url = urlunparse lib q
         \<and> scheme q = scheme p \<and> netloc q = netloc p \<and> params q = params p
         \<and> query q = query p \<and> fragment q = []
         \<and> path q \<noteq> []
         \<and> (path q = ''/'' \<or> last (path q) \<noteq> CHR ''/'')
         \<and> ((\<exists>k. path p = path q @ replicate k CHR ''/'')
            \<or> (path q = ''/'' \<and> (\<exists>k. path p = replicate k CHR ''/'')))"
    using normalized_path_props [of "path p"]
    by (intro exI [of _ ?q]) simp
qed

theorem normalize_url_components_witness:
  "urlparse example_lib ''http://[::1/x'' = Inl (ValueError ''Invalid IPv6 URL'')
   \<and> normalize_url example_lib ''http://[::1/x'' = ''http://[::1/x''
   \<and> urlparse example_lib ''HTTPS://Ex.com/a/b//?q=1#frag'' =
       Inr \<lparr>scheme = ''https'', netloc = ''Ex.com'', path = ''/a/b//'', params = [],
            query = ''q=1'', fragment = ''frag''\<rparr>
   \<and> (\<exists>q. normalize_url example_lib ''HTTPS://Ex.com/a/b//?q=1#frag'' = urlunparse example_lib q
         \<and> scheme q = ''https'' \<and> netloc q = ''Ex.com'' \<and> params q = [] \<and> query q = ''q=1''
         \<and> fragment q = [] \<and> path q \<noteq> []
         \<and> (path q = ''/'' \<or> last (path q) \<noteq> CHR ''/'')
         \<and> ((\<exists>k. ''/a/b//'' = path q @ replicate k CHR ''/'')
            \<or> (path q = ''/'' \<and> (\<exists>k. ''/a/b//'' = replicate k CHR ''/''))))"
proof -
  have bad: "urlparse example_lib ''http://[::1/x'' = Inl (ValueError ''Invalid IPv6 URL'')"
    by code_simp
  have good: "urlparse example_lib ''HTTPS://Ex.com/a/b//?q=1#frag'' =
       Inr \<lparr>scheme = ''https'', netloc = ''Ex.com'', path = ''/a/b//'', params = [],
            query = ''q=1'', fragment = ''frag''\<rparr>"
    by code_simp
  show ?thesis
    using normalize_url_components [of example_lib "''http://[::1/x''"]
      normalize_url_components [of example_lib "''HTTPS://Ex.com/a/b//?q=1#frag''"] bad good
    by simp
qed

section \<open>Properties of the contact extraction\<close>

lemma phone_loop_append:
  "phone_loop u ms seen cs = cs @ phone_loop u ms seen []"
proof (induction ms arbitrary: seen cs)
  case Nil
  then show ?case by simp
next
  case (Cons m ms)
  show ?case
    using Cons.IH [of "insert (phone_clean (phone_str m)) seen"
        "cs @ [mk_contact ''phone'' (phone_str m) u 0.8 ''regex_pattern_matching'']"]
      Cons.IH [of "insert (phone_clean (phone_str m)) seen"
        "[mk_contact ''phone'' (phone_str m) u 0.8 ''regex_pattern_matching'']"]
      Cons.IH [of seen cs]
    by simp
qed

lemma phone_loop_types:
  "c \<in> set (phone_loop u ms seen []) \<Longrightarrow> contact_type c = ''phone''"
proof (induction ms arbitrary: seen)
  case Nil
  then show ?case by simp
next
  case (Cons m ms)
  then show ?case
    using phone_loop_append [of u ms "insert (phone_clean (phone_str m)) seen"
        "[mk_contact ''phone'' (phone_str m) u 0.8 ''regex_pattern_matching'']"]
    by (auto simp: mk_contact_def split: if_splits)
qed

lemma regex_email_types:
  "c \<in> set (regex_email_contacts lib sp u) \<Longrightarrow> contact_type c = ''email''"
  by (auto simp: regex_email_contacts_def mk_contact_def)

lemma element_contacts_types:
  "c \<in> set (element_contacts lib u el) \<Longrightarrow> contact_type c = ''email'' \<or> contact_type c = ''phone''"
  by (auto simp: element_contacts_def mk_contact_def Let_def split: if_splits)

lemma selector_contacts_types:
  "c \<in> set (selector_contacts lib sp u) \<Longrightarrow> contact_type c = ''email'' \<or> contact_type c = ''phone''"
  unfolding selector_contacts_def using element_contacts_types by fastforce

lemma contact_candidates_split:
  "contact_candidates lib sp u =
     regex_email_contacts lib sp u
     @ phone_loop u (take 10 (all_phone_matches lib sp)) {} []
     @ selector_contacts lib sp u"
  unfolding contact_candidates_def
  using phone_loop_append [of u "take 10 (all_phone_matches lib sp)" "{}" "regex_email_contacts lib sp u"]
  by simp

lemma contact_candidates_types:
  "c \<in> set (contact_candidates lib sp u) \<Longrightarrow> contact_type c = ''email'' \<or> contact_type c = ''phone''"
  unfolding contact_candidates_split
  using regex_email_types phone_loop_types selector_contacts_types by fastforce

lemma value_key_email:
  "contact_type c = ''email'' \<or> contact_type c = ''phone'' \<Longrightarrow>
   value_key c = ''email:'' @ v \<longleftrightarrow> contact_type c = ''email'' \<and> contact_value c = v"
  by (auto simp: value_key_def)

lemma unique_loop_filter:
  "filter (\<lambda>c. value_key c = k) (unique_loop cs seen uniq) =
     filter (\<lambda>c. value_key c = k) uniq
     @ (if k \<in> seen then []
        else (case find (\<lambda>c. value_key c = k) cs of None \<Rightarrow> [] | Some r \<Rightarrow> [r]))"
  by (induction cs arbitrary: seen uniq) auto

lemma unique_loop_subset:
  "set (unique_loop cs seen uniq) \<subseteq> set uniq \<union> set cs"
proof (induction cs arbitrary: seen uniq)
  case Nil
  then show ?case by simp
next
  case (Cons c cs)
  show ?case
    using Cons.IH [of "insert (value_key c) seen" "uniq @ [c]"] Cons.IH [of seen uniq]
    by auto
qed

lemma unique_loop_distinct_keys:
  "distinct (map value_key uniq) \<Longrightarrow> value_key ` set uniq \<subseteq> seen \<Longrightarrow>
   distinct (map value_key (unique_loop cs seen uniq))"
proof (induction cs arbitrary: seen uniq)
  case Nil
  then show ?case by simp
next
  case (Cons c cs)
  show ?case
    using Cons.IH [of "uniq @ [c]" "insert (value_key c) seen"] Cons.IH [of uniq seen] Cons.prems
    by auto
qed

lemma lower_char_at: "lower_char c = CHR ''@'' \<longleftrightarrow> c = CHR ''@''"
  by (cases c) (auto simp: lower_char_def)

lemma lower_at: "CHR ''@'' \<in> set (lower s) \<longleftrightarrow> CHR ''@'' \<in> set s"
proof -
  have "CHR ''@'' \<in> lower_char ` set s \<longleftrightarrow> CHR ''@'' \<in> set s"
    using lower_char_at by (metis (no_types, lifting) image_iff)
  then show ?thesis by (simp add: lower_def)
qed

lemma find_Some_mem: "find P xs = Some r \<Longrightarrow> r \<in> set xs \<and> P r"
  by (induction xs) (auto split: if_splits)

text \<open>
  Claim C5. When an address is found by the e-mail pattern in the text of the page and a
  \<^verbatim>\<open>mailto:\<close> link carries the same address (up to case), the list returned by
  \<^verbatim>\<open>_extract_contact_comprehensive\<close> holds exactly one record of type \<open>email\<close> with
  that (lower-cased) value, and it is the first such record of the list \<^verbatim>\<open>contacts\<close>:
  the last loop keeps the first record of every key and drops the later ones. (A string
  matched by the e-mail pattern contains an \<open>@\<close>; the selector \<^verbatim>\<open>a[href^="mailto:"]\<close>
  returns \<^verbatim>\<open>a\<close> tags whose \<^verbatim>\<open>href\<close> starts with \<^verbatim>\<open>mailto:\<close>.)
\<close>

theorem mailto_and_text_email_once:
  assumes plain: "e \<in> set (findall_email lib (soup_get_text sp))"
    and at: "CHR ''@'' \<in> set e"
    and link: "a \<in> set (soup_select sp SelMailto)" "el_name a = ''a''"
      "startswith (el_get a ''href'') ''mailto:''"
    and same: "lower (strip (remove_all ''mailto:'' (el_get a ''href''))) = lower e"
  shows "\<exists>r. filter (\<lambda>c. contact_type c = ''email'' \<and> contact_value c = lower e)
                (extract_contact_comprehensive lib sp base_url) = [r]
            \<and> find (\<lambda>c. contact_type c = ''email'' \<and> contact_value c = lower e)
                (contact_candidates lib sp base_url) = Some r"
proof -
  let ?cands = "contact_candidates lib sp base_url"
  let ?k = "''email:'' @ lower e"
  let ?m = "strip (remove_all ''mailto:'' (el_get a ''href''))"
  let ?r = "mk_contact ''email'' (lower ?m) base_url 0.98 ''html_mailto_link''"
  have "CHR ''@'' \<in> set ?m" using at same lower_at by metis
  then have "?r \<in> set (element_contacts lib base_url a)"
    using link by (auto simp: element_contacts_def Let_def)
  then have "?r \<in> set (selector_contacts lib sp base_url)"
    using link(1) by (auto simp: selector_contacts_def contact_selectors_def)
  then have mem: "?r \<in> set ?cands" by (simp add: contact_candidates_split)
  have key: "value_key ?r = ?k" using same by (simp add: value_key_def mk_contact_def)
  have eq: "(value_key x = ?k) = (contact_type x = ''email'' \<and> contact_value x = lower e)"
    if "x \<in> set ?cands" for x
    using that contact_candidates_types value_key_email by blast
  have f1: "find (\<lambda>c. value_key c = ?k) ?cands
      = find (\<lambda>c. contact_type c = ''email'' \<and> contact_value c = lower e) ?cands"
    using eq by (intro find_cong) auto
  have sub: "set (extract_contact_comprehensive lib sp base_url) \<subseteq> set ?cands"
    using unique_loop_subset [of ?cands "{}" "[]"] by (simp add: extract_contact_comprehensive_def)
  have f2: "filter (\<lambda>c. value_key c = ?k) (extract_contact_comprehensive lib sp base_url)
      = filter (\<lambda>c. contact_type c = ''email'' \<and> contact_value c = lower e)
          (extract_contact_comprehensive lib sp base_url)"
    using eq sub by (intro filter_cong) auto
  obtain r where r: "find (\<lambda>c. value_key c = ?k) ?cands = Some r"
    using mem key by (cases "find (\<lambda>c. value_key c = ?k) ?cands") (auto simp: find_None_iff)
  have "filter (\<lambda>c. value_key c = ?k) (extract_contact_comprehensive lib sp base_url) = [r]"
    using unique_loop_filter [of ?k ?cands "{}" "[]"] r
    by (simp add: extract_contact_comprehensive_def)
  then show ?thesis using f1 f2 r by auto
qed

theorem mailto_and_text_email_once_witness:
  "''x@y.com'' \<in> set (findall_email example_lib
      (soup_get_text (example_soup ''write x@y.com or href=mailto:X@y.com now'')))
   \<and> \<lparr>el_name = ''a'', el_attrs = [(''href'', ''mailto:X@y.com'')], el_text = []\<rparr>
       \<in> set (soup_select (example_soup ''write x@y.com or href=mailto:X@y.com now'') SelMailto)
   \<and> (\<exists>r. filter (\<lambda>c. contact_type c = ''email'' \<and> contact_value c = lower ''x@y.com'')
              (extract_contact_comprehensive example_lib
                 (example_soup ''write x@y.com or href=mailto:X@y.com now'') ''https://y.com/'') = [r]
          \<and> find (\<lambda>c. contact_type c = ''email'' \<and> contact_value c = lower ''x@y.com'')
              (contact_candidates example_lib
                 (example_soup ''write x@y.com or href=mailto:X@y.com now'') ''https://y.com/'') = Some r)"
proof -
  let ?sp = "example_soup ''write x@y.com or href=mailto:X@y.com now''"
  let ?a = "\<lparr>el_name = ''a'', el_attrs = [(''href'', ''mailto:X@y.com'')], el_text = []\<rparr>"
  have h1: "''x@y.com'' \<in> set (findall_email example_lib (soup_get_text ?sp))"
    by code_simp
  have h2: "CHR ''@'' \<in> set ''x@y.com''"
    by simp
  have h3: "?a \<in> set (soup_select ?sp SelMailto)"
    by code_simp
  have h4: "el_name ?a = ''a''"
    by simp
  have h5: "startswith (el_get ?a ''href'') ''mailto:''"
    by code_simp
  have h6: "lower (strip (remove_all ''mailto:'' (el_get ?a ''href''))) = lower ''x@y.com''"
    by code_simp
  show ?thesis
    using mailto_and_text_email_once [OF h1 h2 h3 h4 h5 h6, of "''https://y.com/''"] h1 h3
    by blast
qed

lemma find_determined:
  assumes "set xs = set ys"
    and "\<And>x y. x \<in> set xs \<Longrightarrow> y \<in> set xs \<Longrightarrow> P x \<Longrightarrow> P y \<Longrightarrow> x = y"
  shows "find P xs = find P ys"
proof (cases "find P xs")
  case None
  then have "\<forall>x\<in>set ys. \<not> P x" using assms(1) by (auto simp: find_None_iff)
  then have "find P ys = None" by (simp add: find_None_iff)
  then show ?thesis using None by simp
next
  case (Some x)
  then have x: "x \<in> set xs" "P x" using find_Some_mem by fastforce+
  then obtain y where y: "find P ys = Some y"
    using assms(1) by (cases "find P ys") (auto simp: find_None_iff)
  then have "y \<in> set xs" "P y" using find_Some_mem assms(1) by fastforce+
  then have "x = y" using assms(2) x by blast
  then show ?thesis using Some y by simp
qed

lemma find_append_cases:
  "find P (xs @ ys) = (case find P xs of None \<Rightarrow> find P ys | Some x \<Rightarrow> Some x)"
  by (induction xs) auto

lemma unique_loop_mem:
  "x \<in> set (unique_loop cs {} []) \<longleftrightarrow> find (\<lambda>c. value_key c = value_key x) cs = Some x"
proof -
  have f: "filter (\<lambda>c. value_key c = value_key x) (unique_loop cs {} []) =
     (case find (\<lambda>c. value_key c = value_key x) cs of None \<Rightarrow> [] | Some r \<Rightarrow> [r])"
    using unique_loop_filter [of "value_key x" cs "{}" "[]"] by simp
  have "x \<in> set (unique_loop cs {} []) \<longleftrightarrow>
        x \<in> set (filter (\<lambda>c. value_key c = value_key x) (unique_loop cs {} []))"
    by simp
  also have "\<dots> \<longleftrightarrow> find (\<lambda>c. value_key c = value_key x) cs = Some x"
    unfolding f by (cases "find (\<lambda>c. value_key c = value_key x) cs") auto
  finally show ?thesis .
qed

lemma regex_email_same_key:
  "x \<in> set (regex_email_contacts lib sp u) \<Longrightarrow> y \<in> set (regex_email_contacts lib sp u) \<Longrightarrow>
   value_key x = value_key y \<Longrightarrow> x = y"
  by (auto simp: regex_email_contacts_def mk_contact_def value_key_def)

lemma take_all_of_set:
  assumes "distinct os" "set os = set es" "card (set es) \<le> n"
  shows "take n os = os"
proof -
  have "length os = card (set es)" using assms(1,2) distinct_card by fastforce
  then show ?thesis using assms(3) by simp
qed

text \<open>
  Claim C6, as amended. Two runs of \<^verbatim>\<open>_extract_contact_comprehensive\<close> on the same document
  see the same regular expression matches, but \<^verbatim>\<open>list(set(emails))\<close> may enumerate the set
  in a different order in each (the order depends on the hash seed of the process). When the
  two orders agree, the two runs return the same list. When the text holds at most ten
  distinct matches of the e-mail pattern, the two runs return the same set of records,
  whatever the orders.
\<close>

theorem contact_extraction_determinism:
  assumes re: "findall_email lib2 = findall_email lib1" "findall_phone lib2 = findall_phone lib1"
    and o1: "distinct (list_of_set lib1 (findall_email lib1 (soup_get_text sp)))"
      "set (list_of_set lib1 (findall_email lib1 (soup_get_text sp)))
         = set (findall_email lib1 (soup_get_text sp))"
    and o2: "distinct (list_of_set lib2 (findall_email lib1 (soup_get_text sp)))"
      "set (list_of_set lib2 (findall_email lib1 (soup_get_text sp)))
         = set (findall_email lib1 (soup_get_text sp))"
  shows "(list_of_set lib2 (findall_email lib1 (soup_get_text sp))
            = list_of_set lib1 (findall_email lib1 (soup_get_text sp))
          \<longrightarrow> extract_contact_comprehensive lib2 sp base_url
              = extract_contact_comprehensive lib1 sp base_url)
       \<and> (card (set (findall_email lib1 (soup_get_text sp))) \<le> 10
          \<longrightarrow> set (extract_contact_comprehensive lib2 sp base_url)
              = set (extract_contact_comprehensive lib1 sp base_url))"
proof (intro conjI impI)
  let ?es = "findall_email lib1 (soup_get_text sp)"
  have rest: "phone_loop base_url (take 10 (all_phone_matches lib2 sp)) {} []
                @ selector_contacts lib2 sp base_url
            = phone_loop base_url (take 10 (all_phone_matches lib1 sp)) {} []
                @ selector_contacts lib1 sp base_url"
  proof -
    have "element_contacts lib2 base_url = element_contacts lib1 base_url"
      using re(1) by (intro ext) (simp add: element_contacts_def)
    then show ?thesis
      using re(2) by (simp add: all_phone_matches_def selector_contacts_def)
  qed
  {
    assume "list_of_set lib2 ?es = list_of_set lib1 ?es"
    then have "regex_email_contacts lib2 sp base_url = regex_email_contacts lib1 sp base_url"
      using re by (simp add: regex_email_contacts_def)
    then show "extract_contact_comprehensive lib2 sp base_url
               = extract_contact_comprehensive lib1 sp base_url"
      using rest by (simp add: extract_contact_comprehensive_def contact_candidates_split)
  }
  {
    assume small: "card (set ?es) \<le> 10"
    let ?R1 = "regex_email_contacts lib1 sp base_url"
    let ?R2 = "regex_email_contacts lib2 sp base_url"
    let ?T = "phone_loop base_url (take 10 (all_phone_matches lib1 sp)) {} []
                @ selector_contacts lib1 sp base_url"
    have "take 10 (list_of_set lib1 ?es) = list_of_set lib1 ?es"
      "take 10 (list_of_set lib2 ?es) = list_of_set lib2 ?es"
      using take_all_of_set o1 o2 small by blast+
    then have sets: "set ?R2 = set ?R1"
      using re o1(2) o2(2) by (simp add: regex_email_contacts_def)
    have c1: "contact_candidates lib1 sp base_url = ?R1 @ ?T"
      by (simp add: contact_candidates_split)
    have c2: "contact_candidates lib2 sp base_url = ?R2 @ ?T"
      using rest by (simp add: contact_candidates_split)
    have "find (\<lambda>c. value_key c = k) ?R2 = find (\<lambda>c. value_key c = k) ?R1" for k
      using sets regex_email_same_key by (intro find_determined) auto
    then have "find (\<lambda>c. value_key c = k) (?R2 @ ?T) = find (\<lambda>c. value_key c = k) (?R1 @ ?T)" for k
      by (simp add: find_append_cases)
    then show "set (extract_contact_comprehensive lib2 sp base_url)
               = set (extract_contact_comprehensive lib1 sp base_url)"
      unfolding extract_contact_comprehensive_def c1 c2
      by (auto simp: unique_loop_mem)
  }
qed

theorem contact_extraction_determinism_witness:
  "card (set (findall_email example_lib (soup_get_text (example_soup ''a@x.io b@x.io'')))) \<le> 10
   \<and> set (extract_contact_comprehensive example_lib_rev (example_soup ''a@x.io b@x.io'') ''u'')
     = set (extract_contact_comprehensive example_lib (example_soup ''a@x.io b@x.io'') ''u'')
   \<and> extract_contact_comprehensive example_lib (example_soup ''a@x.io b@x.io'') ''u''
     = extract_contact_comprehensive example_lib (example_soup ''a@x.io b@x.io'') ''u''"
proof -
  let ?sp = "example_soup ''a@x.io b@x.io''"
  have re: "findall_email example_lib_rev = findall_email example_lib"
    "findall_phone example_lib_rev = findall_phone example_lib"
    by (simp_all add: example_lib_rev_def)
  have o1: "distinct (list_of_set example_lib (findall_email example_lib (soup_get_text ?sp)))"
    "set (list_of_set example_lib (findall_email example_lib (soup_get_text ?sp)))
       = set (findall_email example_lib (soup_get_text ?sp))"
    by (simp_all add: example_lib_def)
  have o2: "distinct (list_of_set example_lib_rev (findall_email example_lib (soup_get_text ?sp)))"
    "set (list_of_set example_lib_rev (findall_email example_lib (soup_get_text ?sp)))
       = set (findall_email example_lib (soup_get_text ?sp))"
    by (simp_all add: example_lib_rev_def example_lib_def)
  have small: "card (set (findall_email example_lib (soup_get_text ?sp))) \<le> 10"
    by code_simp
  show ?thesis
    using contact_extraction_determinism [OF re o1 o2, of "''u''"]
      contact_extraction_determinism [OF refl refl o1 o1, of "''u''"] small
    by simp
qed

text \<open>
  Claim C6, as stated, fails: on a page with eleven addresses a process whose sets iterate
  in the order of insertion and one whose sets iterate in the opposite order keep ten
  different addresses, so the two runs return different records.
\<close>

theorem contact_extraction_order_counterexample:
  "mk_contact ''email'' ''k@x.io'' ''u'' 0.95 ''regex_pattern_matching''
     \<in> set (extract_contact_comprehensive example_lib_rev (example_soup eleven_addresses) ''u'')
   \<and> mk_contact ''email'' ''k@x.io'' ''u'' 0.95 ''regex_pattern_matching''
     \<notin> set (extract_contact_comprehensive example_lib (example_soup eleven_addresses) ''u'')
   \<and> extract_contact_comprehensive example_lib_rev (example_soup eleven_addresses) ''u''
     \<noteq> extract_contact_comprehensive example_lib (example_soup eleven_addresses) ''u''"
proof -
  have a: "mk_contact ''email'' ''k@x.io'' ''u'' 0.95 ''regex_pattern_matching''
     \<in> set (extract_contact_comprehensive example_lib_rev (example_soup eleven_addresses) ''u'')"
    by code_simp
  have b: "mk_contact ''email'' ''k@x.io'' ''u'' 0.95 ''regex_pattern_matching''
     \<notin> set (extract_contact_comprehensive example_lib (example_soup eleven_addresses) ''u'')"
    by code_simp
  from a b show ?thesis by metis
qed

section \<open>The invariants hold in every session\<close>

lemma set_phase_simps [simp]:
  "self (set_phase c i ph) = self c"
  "fetch_log (set_phase c i ph) = fetch_log c"
  "calls (set_phase c i ph) = calls c"
  "semaphores (set_phase c i ph) = semaphores c"
  "clock (set_phase c i ph) = clock c"
  "length (tasks (set_phase c i ph)) = length (tasks c)"
  by (simp_all add: set_phase_def)

lemma set_phase_nth:
  "j < length (tasks c) \<Longrightarrow>
   tasks (set_phase c i ph) ! j = (if j = i then (tasks c ! i)\<lparr>t_phase := ph\<rparr> else tasks c ! j)"
  by (simp add: set_phase_def nth_list_update)

lemma update_coverage_summary_simps [simp]:
  "crawled_urls (update_coverage_summary s) = crawled_urls s"
  "base_domain (update_coverage_summary s) = base_domain s"
  "max_depth (update_coverage_summary s) = max_depth s"
  "timeout (update_coverage_summary s) = timeout s"
  "max_concurrent (update_coverage_summary s) = max_concurrent s"
  "structure_of (update_coverage_summary s) = structure_of s"
  "cd_raw_html (crawl_data (update_coverage_summary s)) = cd_raw_html (crawl_data s)"
  "cd_metadata (crawl_data (update_coverage_summary s)) = cd_metadata (crawl_data s)"
  "cd_contact (crawl_data (update_coverage_summary s)) = cd_contact (crawl_data s)"
  "total_pages (coverage_summary (cd_sitemap (crawl_data (update_coverage_summary s))))
     = card (crawled_urls s)"
  by (simp_all add: update_coverage_summary_def structure_of_def Let_def)

lemma scrape_website_end_simps [simp]:
  "tasks (scrape_website_end c k out) = tasks c"
  "fetch_log (scrape_website_end c k out) = fetch_log c"
  "semaphores (scrape_website_end c k out) = semaphores c"
  "clock (scrape_website_end c k out) = clock c"
  "length (calls (scrape_website_end c k out)) = length (calls c)"
  "crawled_urls (self (scrape_website_end c k out)) = crawled_urls (self c)"
  "base_domain (self (scrape_website_end c k out)) = base_domain (self c)"
  "max_depth (self (scrape_website_end c k out)) = max_depth (self c)"
  "timeout (self (scrape_website_end c k out)) = timeout (self c)"
  "max_concurrent (self (scrape_website_end c k out)) = max_concurrent (self c)"
  "structure_of (self (scrape_website_end c k out)) = structure_of (self c)"
  "cd_raw_html (crawl_data (self (scrape_website_end c k out))) = cd_raw_html (crawl_data (self c))"
  "cd_metadata (crawl_data (self (scrape_website_end c k out))) = cd_metadata (crawl_data (self c))"
  "cd_contact (crawl_data (self (scrape_website_end c k out))) = cd_contact (crawl_data (self c))"
  by (simp_all add: scrape_website_end_def Let_def split: option.splits py_exception.splits)

lemma scrape_website_end_data:
  "crawl_data (self (scrape_website_end c k out))
     = (if out = None then crawl_data (update_coverage_summary (self c)) else crawl_data (self c))"
  by (cases out) (simp_all add: scrape_website_end_def Let_def split: py_exception.splits)

lemma finish_simps [simp]:
  "tasks (finish c i out) = tasks (set_phase c i (Finished out))"
  "fetch_log (finish c i out) = fetch_log c"
  "clock (finish c i out) = clock c"
  "length (calls (finish c i out)) = length (calls c)"
  "crawled_urls (self (finish c i out)) = crawled_urls (self c)"
  "base_domain (self (finish c i out)) = base_domain (self c)"
  "max_depth (self (finish c i out)) = max_depth (self c)"
  "timeout (self (finish c i out)) = timeout (self c)"
  "max_concurrent (self (finish c i out)) = max_concurrent (self c)"
  "structure_of (self (finish c i out)) = structure_of (self c)"
  "cd_raw_html (crawl_data (self (finish c i out))) = cd_raw_html (crawl_data (self c))"
  "cd_metadata (crawl_data (self (finish c i out))) = cd_metadata (crawl_data (self c))"
  "cd_contact (crawl_data (self (finish c i out))) = cd_contact (crawl_data (self c))"
  by (simp_all add: finish_def Let_def split: owner.splits)

lemma ball_list_update:
  "(\<forall>t\<in>set xs. P t) \<Longrightarrow> P x \<Longrightarrow> (\<forall>t\<in>set (xs[i := x]). P t)"
  using set_update_subset_insert [of xs i x] by auto

lemma in_set_updD: "x \<in> set (xs[k := y]) \<Longrightarrow> x = y \<or> x \<in> set xs"
  using set_update_subset_insert [of xs k y] by auto

lemma data_ok_mono: "data_ok D V cd \<Longrightarrow> V \<subseteq> V' \<Longrightarrow> data_ok D V' cd"
  unfolding data_ok_def by blast

lemma outcome_ok_mono: "outcome_ok D V out \<Longrightarrow> V \<subseteq> V' \<Longrightarrow> outcome_ok D V' out"
  unfolding outcome_ok_def using data_ok_mono
  by (cases out) (auto split: sum.splits)

lemma call_ok_mono: "call_ok D V cl \<Longrightarrow> V \<subseteq> V' \<Longrightarrow> call_ok D V' cl"
  unfolding call_ok_def using outcome_ok_mono by blast

lemma task_ok_mono: "task_ok D V n t \<Longrightarrow> V \<subseteq> V' \<Longrightarrow> n \<le> n' \<Longrightarrow> task_ok D V' n' t"
  unfolding task_ok_def by fastforce

lemma data_ok_update_coverage:
  "data_ok D V (crawl_data (update_coverage_summary s)) = data_ok D V (crawl_data s)"
  by (simp add: data_ok_def update_coverage_summary_def Let_def)

lemma data_ok_card:
  assumes "data_ok D V cd" "finite V"
  shows "card (dom (crawl_structure (cd_sitemap cd))) \<le> card V"
  using assms by (simp add: data_ok_def card_mono)

lemma task_ok_phase:
  assumes "task_ok D V n t"
    and "before_fetch ph \<longrightarrow> t_current_depth t \<le> D"
    and "\<forall>u. waits_for ph = Some u \<longrightarrow> u \<in> V"
    and "ph \<noteq> Finished (Some AsyncioTimeoutError)"
  shows "task_ok D V n (t\<lparr>t_phase := ph\<rparr>)"
  using assms by (simp add: task_ok_def)

lemma state_ok_task_update:
  "state_ok lib D V B rqs ts cd cls \<Longrightarrow> task_ok D V (length cls) t \<Longrightarrow>
   state_ok lib D V B rqs (ts[i := t]) cd cls"
  unfolding state_ok_def using ball_list_update [of ts "task_ok D V (length cls)" t i] by blast

lemma state_ok_tasks_append:
  "state_ok lib D V B rqs ts cd cls \<Longrightarrow> \<forall>t\<in>set ks. task_ok D V (length cls) t \<Longrightarrow>
   state_ok lib D V B rqs (ts @ ks) cd cls"
  unfolding state_ok_def by auto

lemma state_ok_data:
  "state_ok lib D V B rqs ts cd cls \<Longrightarrow> data_ok D V cd' \<Longrightarrow>
   state_ok lib D V B rqs ts cd' cls"
  unfolding state_ok_def by blast

lemma state_ok_call_update:
  "state_ok lib D V B rqs ts cd cls \<Longrightarrow> call_ok D V cl \<Longrightarrow>
   state_ok lib D V B rqs ts cd (cls[k := cl])"
  unfolding state_ok_def using ball_list_update [of cls "call_ok D V" cl k] by simp

lemma urls_of_append:
  "urls_of tr (rqs @ [r]) = (if rq_transport r = tr then urls_of tr rqs @ [rq_url r] else urls_of tr rqs)"
  by (simp add: urls_of_def)

lemma state_ok_enter:
  assumes "state_ok lib D V B rqs ts cd cls"
    and "rq_url r \<notin> V" "extract_domain_from_url lib (rq_url r) = B"
    and "rq_transport r = Crawl4ai" "rq_depth r \<le> D"
  shows "state_ok lib D (insert (rq_url r) V) B (rqs @ [r]) ts cd cls"
proof -
  have sub: "V \<subseteq> insert (rq_url r) V" by blast
  have t: "\<forall>t\<in>set ts. task_ok D (insert (rq_url r) V) (length cls) t"
    using assms(1) task_ok_mono [OF _ sub order_refl] unfolding state_ok_def by blast
  have c: "\<forall>cl\<in>set cls. call_ok D (insert (rq_url r) V) cl"
    using assms(1) call_ok_mono [OF _ sub] unfolding state_ok_def by blast
  have d: "data_ok D (insert (rq_url r) V) cd"
    using assms(1) data_ok_mono [OF _ sub] unfolding state_ok_def by blast
  have u: "set (urls_of Crawl4ai (rqs @ [r])) = insert (rq_url r) V"
    "distinct (urls_of Crawl4ai (rqs @ [r]))"
    "set (urls_of Httpx (rqs @ [r])) \<subseteq> insert (rq_url r) V"
    using assms unfolding state_ok_def by (auto simp: urls_of_append)
  have rest: "finite (insert (rq_url r) V)"
    "\<forall>u\<in>insert (rq_url r) V. extract_domain_from_url lib u = B"
    "\<forall>x\<in>set (rqs @ [r]). rq_depth x \<le> D"
    using assms unfolding state_ok_def by auto
  show ?thesis unfolding state_ok_def using t c d u rest by blast
qed

lemma state_ok_fallback:
  assumes "state_ok lib D V B rqs ts cd cls"
    and "rq_url r \<in> V" "rq_transport r = Httpx" "rq_depth r \<le> D"
  shows "state_ok lib D V B (rqs @ [r]) ts cd cls"
proof -
  have u: "set (urls_of Crawl4ai (rqs @ [r])) = V"
    "distinct (urls_of Crawl4ai (rqs @ [r]))"
    "set (urls_of Httpx (rqs @ [r])) \<subseteq> V"
    "\<forall>x\<in>set (rqs @ [r]). rq_depth x \<le> D"
    using assms unfolding state_ok_def by (auto simp: urls_of_append)
  show ?thesis using assms(1) u unfolding state_ok_def by blast
qed

lemma crawl_invD:
  assumes "crawl_inv lib D c"
  shows "finite (crawled_urls (self c))"
    and "\<forall>u\<in>crawled_urls (self c). extract_domain_from_url lib u = base_domain (self c)"
    and "set (urls_of Crawl4ai (fetch_log c)) = crawled_urls (self c)"
    and "distinct (urls_of Crawl4ai (fetch_log c))"
    and "set (urls_of Httpx (fetch_log c)) \<subseteq> crawled_urls (self c)"
    and "\<forall>t\<in>set (tasks c). task_ok D (crawled_urls (self c)) (length (calls c)) t"
    and "\<forall>r\<in>set (fetch_log c). rq_depth r \<le> D"
    and "data_ok D (crawled_urls (self c)) (crawl_data (self c))"
    and "\<forall>cl\<in>set (calls c). call_ok D (crawled_urls (self c)) cl"
  using assms unfolding crawl_inv_def state_ok_def by blast+

lemma crawl_inv_semaphores [simp]: "crawl_inv lib D (c\<lparr>semaphores := x\<rparr>) = crawl_inv lib D c"
  by (simp add: crawl_inv_def)

lemma crawl_inv_clock [simp]: "crawl_inv lib D (c\<lparr>clock := x\<rparr>) = crawl_inv lib D c"
  by (simp add: crawl_inv_def)

lemma crawl_inv_task:
  "crawl_inv lib D c \<Longrightarrow> i < length (tasks c) \<Longrightarrow>
   task_ok D (crawled_urls (self c)) (length (calls c)) (tasks c ! i)"
  using crawl_invD(6) by simp

lemma crawl_inv_set_phase:
  assumes "crawl_inv lib D c" "i < length (tasks c)"
    and "before_fetch ph \<longrightarrow> t_current_depth (tasks c ! i) \<le> D"
    and "\<forall>u. waits_for ph = Some u \<longrightarrow> u \<in> crawled_urls (self c)"
    and "ph \<noteq> Finished (Some AsyncioTimeoutError)"
  shows "crawl_inv lib D (set_phase c i ph)"
proof -
  have "task_ok D (crawled_urls (self c)) (length (calls c)) ((tasks c ! i)\<lparr>t_phase := ph\<rparr>)"
    using crawl_inv_task [OF assms(1,2)] assms(3-5) by (intro task_ok_phase) auto
  then show ?thesis
    using assms(1) state_ok_task_update unfolding crawl_inv_def by (simp add: set_phase_def)
qed

lemma scrape_website_end_calls:
  "calls (scrape_website_end c k out)
     = (calls c)[k := (calls c ! k)\<lparr>call_result := Some (scrape_website_return
          (case out of None \<Rightarrow> c\<lparr>self := update_coverage_summary (self c)\<rparr> | Some e \<Rightarrow> c)
          k out)\<rparr>]"
  by (simp add: scrape_website_end_def Let_def)

lemma scrape_website_return_None:
  "scrape_website_return c k None =
     Inr \<lparr>res_metadata =
            \<lparr>rm_scraping_timestamp = clock c, rm_source_url = call_url (calls c ! k),
             rm_company_name = call_company_name (calls c ! k),
             rm_crawl_depth = call_crawl_depth (calls c ! k),
             rm_total_pages_crawled = card (crawled_urls (self c)),
             rm_processing_time = clock c - call_start_time (calls c ! k),
             rm_base_domain = base_domain (self c)\<rparr>,
          res_data = crawl_data (self c)\<rparr>"
  by (simp add: scrape_website_return_def Let_def)

lemma scrape_website_return_Some:
  "x \<noteq> AsyncioTimeoutError \<Longrightarrow>
   scrape_website_return c k (Some x) =
     Inl (ScrapingError (''Failed to scrape '' @ call_url (calls c ! k) @ '': '' @ exc_str x)
            (call_url (calls c ! k)))"
  by (cases x) (simp_all add: scrape_website_return_def Let_def)

lemma outcome_ok_return:
  assumes "data_ok D (crawled_urls s) (crawl_data s)" "finite (crawled_urls s)"
    and "call_crawl_depth (calls c ! k) = D" "out \<noteq> Some AsyncioTimeoutError"
  shows "outcome_ok D (crawled_urls s)
           (Some (scrape_website_return
              (case out of None \<Rightarrow> c\<lparr>self := update_coverage_summary s\<rparr> | Some e \<Rightarrow> c) k out))"
proof (cases out)
  case None
  have "data_ok D (crawled_urls s) (crawl_data (update_coverage_summary s))"
    using assms(1) by (simp add: data_ok_update_coverage)
  moreover have "card (dom (crawl_structure (cd_sitemap (crawl_data (update_coverage_summary s)))))
      \<le> card (crawled_urls s)"
    using data_ok_card [OF calculation assms(2)] .
  ultimately show ?thesis
    using None assms(3) by (simp add: scrape_website_return_None outcome_ok_def)
next
  case (Some x)
  then show ?thesis using assms(4) by (simp add: scrape_website_return_Some outcome_ok_def)
qed

lemma crawl_inv_finish:
  assumes "crawl_inv lib D c" "i < length (tasks c)" "out \<noteq> Some AsyncioTimeoutError"
  shows "crawl_inv lib D (finish c i out)"
proof -
  let ?c1 = "set_phase c i (Finished out)"
  let ?V = "crawled_urls (self c)"
  have c1: "crawl_inv lib D ?c1"
    using assms by (intro crawl_inv_set_phase) auto
  show ?thesis
  proof (cases "t_owner (tasks c ! i)")
    case (Child b)
    then show ?thesis using c1 by (simp add: finish_def Let_def)
  next
    case (Root k)
    have k: "k < length (calls c)"
      using crawl_inv_task [OF assms(1,2)] Root by (simp add: task_ok_def)
    have old: "call_ok D ?V (calls c ! k)"
      using crawl_invD(9) [OF assms(1)] k by simp
    have fin: "finite ?V" and dat: "data_ok D ?V (crawl_data (self c))"
      using crawl_invD(1,8) [OF assms(1)] by blast+
    let ?res = "scrape_website_return
          (case out of None \<Rightarrow> ?c1\<lparr>self := update_coverage_summary (self ?c1)\<rparr> | Some e \<Rightarrow> ?c1)
          k out"
    have "outcome_ok D ?V (Some ?res)"
    proof (cases out)
      case None
      then show ?thesis
        using outcome_ok_return [of D "self c" ?c1 k out] dat fin old
        by (simp add: call_ok_def)
    next
      case (Some x)
      then show ?thesis
        using outcome_ok_return [of D "self c" ?c1 k out] dat fin old assms(3)
        by (simp add: call_ok_def)
    qed
    then have new: "call_ok D ?V ((calls c ! k)\<lparr>call_result := Some ?res\<rparr>)"
      using old by (simp add: call_ok_def)
    have d2: "data_ok D ?V (crawl_data (self (scrape_website_end ?c1 k out)))"
      using dat by (simp add: scrape_website_end_data data_ok_update_coverage)
    have "state_ok lib D ?V (base_domain (self c)) (fetch_log c) (tasks ?c1)
            (crawl_data (self c)) (calls c)"
      using c1 by (simp add: crawl_inv_def)
    then have "state_ok lib D ?V (base_domain (self c)) (fetch_log c) (tasks ?c1)
            (crawl_data (self (scrape_website_end ?c1 k out)))
            ((calls c)[k := (calls c ! k)\<lparr>call_result := Some ?res\<rparr>])"
      using d2 new state_ok_data state_ok_call_update by blast
    then have "crawl_inv lib D (scrape_website_end ?c1 k out)"
      by (simp add: crawl_inv_def scrape_website_end_calls)
    then show ?thesis using Root by (simp add: finish_def Let_def)
  qed
qed

lemma extract_comprehensive_data_simps [simp]:
  "crawled_urls (extract_comprehensive_data lib s u h t d) = crawled_urls s"
  "base_domain (extract_comprehensive_data lib s u h t d) = base_domain s"
  "max_depth (extract_comprehensive_data lib s u h t d) = max_depth s"
  "timeout (extract_comprehensive_data lib s u h t d) = timeout s"
  "max_concurrent (extract_comprehensive_data lib s u h t d) = max_concurrent s"
  by (simp_all add: extract_comprehensive_data_def Let_def split: sum.splits)

lemma phone_loop_page_url:
  "x \<in> set (phone_loop u ms seen []) \<Longrightarrow> page_url x = u"
proof (induction ms arbitrary: seen)
  case Nil
  then show ?case by simp
next
  case (Cons m ms)
  then show ?case
    using phone_loop_append [of u ms "insert (phone_clean (phone_str m)) seen"
        "[mk_contact ''phone'' (phone_str m) u 0.8 ''regex_pattern_matching'']"]
    by (auto simp: mk_contact_def split: if_splits)
qed

lemma contact_page_url:
  assumes "x \<in> set (extract_contact_comprehensive lib sp u)"
  shows "page_url x = u"
proof -
  have "x \<in> set (contact_candidates lib sp u)"
    using assms unique_loop_subset [of "contact_candidates lib sp u" "{}" "[]"]
    by (auto simp: extract_contact_comprehensive_def)
  then consider "x \<in> set (regex_email_contacts lib sp u)"
    | "x \<in> set (phone_loop u (take 10 (all_phone_matches lib sp)) {} [])"
    | "x \<in> set (selector_contacts lib sp u)"
    by (auto simp: contact_candidates_split)
  then show ?thesis
  proof cases
    case 1
    then show ?thesis by (auto simp: regex_email_contacts_def mk_contact_def)
  next
    case 2
    then show ?thesis by (rule phone_loop_page_url)
  next
    case 3
    then show ?thesis
      by (auto simp: selector_contacts_def element_contacts_def mk_contact_def Let_def
          split: if_splits)
  qed
qed

lemma ran_updD: "x \<in> ran (m(k \<mapsto> v)) \<Longrightarrow> x = v \<or> x \<in> ran m"
  by (auto simp: ran_def split: if_splits)

lemma data_ok_extract:
  assumes "data_ok D V (crawl_data s)" "u \<in> V" "d \<le> D"
  shows "data_ok D V (crawl_data (extract_comprehensive_data lib s u h t d))"
proof (cases "BeautifulSoup lib h")
  case (Inl e)
  then show ?thesis using assms(1) by (simp add: extract_comprehensive_data_def)
next
  case (Inr sp)
  let ?m = "crawl_structure (cd_sitemap (crawl_data s))"
  obtain e where cd: "crawl_structure (cd_sitemap (crawl_data (extract_comprehensive_data lib s u h t d)))
        = ?m(u \<mapsto> e)" "se_depth e = d"
      "cd_raw_html (crawl_data (extract_comprehensive_data lib s u h t d))
        = (cd_raw_html (crawl_data s))(u \<mapsto> h)"
      "cd_metadata (crawl_data (extract_comprehensive_data lib s u h t d))
        = cd_metadata (crawl_data s) @ [extract_metadata_comprehensive lib sp u d]"
      "cd_contact (crawl_data (extract_comprehensive_data lib s u h t d))
        = cd_contact (crawl_data s) @ extract_contact_comprehensive lib sp u"
    using Inr by (simp add: extract_comprehensive_data_def Let_def)
  have 1: "dom (?m(u \<mapsto> e)) \<subseteq> V" using assms(1,2) by (auto simp: data_ok_def)
  have 2: "dom ((cd_raw_html (crawl_data s))(u \<mapsto> h)) = dom (?m(u \<mapsto> e))"
    using assms(1) by (auto simp: data_ok_def)
  have 3: "\<forall>x\<in>ran (?m(u \<mapsto> e)). se_depth x \<le> D"
    using assms(1,3) cd(2) by (auto simp: data_ok_def dest!: ran_updD)
  have 4: "\<forall>m\<in>set (cd_metadata (crawl_data s) @ [extract_metadata_comprehensive lib sp u d]).
        md_depth m \<le> D \<and> md_page_url m \<in> dom (?m(u \<mapsto> e))"
    using assms(1,3) by (auto simp: data_ok_def extract_metadata_comprehensive_def)
  have 5: "\<forall>x\<in>set (cd_contact (crawl_data s) @ extract_contact_comprehensive lib sp u).
        page_url x \<in> dom (?m(u \<mapsto> e))"
    using assms(1) contact_page_url by (auto simp: data_ok_def)
  show ?thesis unfolding data_ok_def cd using 1 2 3 4 5 by blast
qed

lemma crawl_inv_extract:
  assumes "crawl_inv lib D c" "u \<in> crawled_urls (self c)" "d \<le> D"
  shows "crawl_inv lib D (c\<lparr>self := extract_comprehensive_data lib (self c) u h t d\<rparr>)"
proof -
  have "data_ok D (crawled_urls (self c))
          (crawl_data (extract_comprehensive_data lib (self c) u h t d))"
    using crawl_invD(8) [OF assms(1)] assms(2,3) by (intro data_ok_extract)
  then show ?thesis
    using assms(1) state_ok_data unfolding crawl_inv_def by simp
qed

lemma crawl_inv_spawn:
  assumes "crawl_inv lib D c" "cd \<le> D"
  shows "crawl_inv lib D
           (c\<lparr>tasks := tasks c @ map (\<lambda>link. \<lparr>t_url = link, t_max_depth = D,
                    t_current_depth = cd, t_owner = Child b, t_phase = WaitSemaphore\<rparr>) batch,
              semaphores := sems\<rparr>)"
proof -
  have "\<forall>t\<in>set (map (\<lambda>link. \<lparr>t_url = link, t_max_depth = D,
                    t_current_depth = cd, t_owner = Child b, t_phase = WaitSemaphore\<rparr>) batch).
          task_ok D (crawled_urls (self c)) (length (calls c)) t"
    using assms(2) by (simp add: task_ok_def)
  then show ?thesis
    using assms(1) state_ok_tasks_append unfolding crawl_inv_def by simp
qed

lemma crawl_inv_crawl_subpages:
  assumes "crawl_inv lib D c" "i < length (tasks c)"
  shows "crawl_inv lib D (crawl_subpages c i links D cd)"
proof -
  let ?b = "length (semaphores c)"
  have gather: "crawl_inv lib D (set_phase c i (AwaitGather ?b))"
    using assms by (intro crawl_inv_set_phase) auto
  have fin: "crawl_inv lib D (finish c i out)" if "out \<noteq> Some AsyncioTimeoutError" for out
    using assms that by (rule crawl_inv_finish)
  show ?thesis
    unfolding crawl_subpages_def Let_def
    using fin crawl_inv_spawn [OF gather, of cd] by auto
qed

lemma crawl_inv_process_page:
  assumes "crawl_inv lib D c" "i < length (tasks c)" "u \<in> crawled_urls (self c)"
    and "t_current_depth (tasks c ! i) \<le> D"
  shows "crawl_inv lib D (process_page lib c i u h t)"
proof -
  let ?c1 = "c\<lparr>self := extract_comprehensive_data lib (self c) u h t
                          (t_current_depth (tasks c ! i))\<rparr>"
  have md: "t_max_depth (tasks c ! i) = D"
    using crawl_inv_task [OF assms(1,2)] by (simp add: task_ok_def)
  have c1: "crawl_inv lib D ?c1"
    using assms by (intro crawl_inv_extract)
  have i1: "i < length (tasks ?c1)" using assms(2) by simp
  show ?thesis
    unfolding process_page_def Let_def md
    using crawl_inv_finish [OF assms(1,2), of None] crawl_inv_finish [OF c1 i1, of None]
      crawl_inv_crawl_subpages [OF c1 i1]
    by simp
qed

lemma crawl_inv_enter:
  assumes "crawl_inv lib D c" "i < length (tasks c)"
  shows "crawl_inv lib D (crawl_website_comprehensive lib c i)"
proof -
  let ?t = "tasks c ! i"
  let ?s = "self c"
  let ?n = "normalize_url lib (t_url ?t)"
  let ?r = "crawl4ai_request ?s ?n (t_current_depth ?t)"
  have tk: "task_ok D (crawled_urls ?s) (length (calls c)) ?t"
    using assms by (rule crawl_inv_task)
  have md: "t_max_depth ?t = D" using tk by (simp add: task_ok_def)
  have fin: "crawl_inv lib D (finish c i None)"
    using assms by (intro crawl_inv_finish) auto
  have go: "crawl_inv lib D
      ((set_phase c i (AwaitCrawl4ai ?n))
         \<lparr>self := ?s\<lparr>crawled_urls := insert ?n (crawled_urls ?s)\<rparr>,
          fetch_log := fetch_log c @ [?r]\<rparr>)"
    if new: "?n \<notin> crawled_urls ?s" and dom: "extract_domain_from_url lib ?n = base_domain ?s"
      and depth: "t_current_depth ?t \<le> D"
  proof -
    have r: "rq_url ?r = ?n" "rq_transport ?r = Crawl4ai" "rq_depth ?r = t_current_depth ?t"
      by (simp_all add: crawl4ai_request_def)
    have "state_ok lib D (crawled_urls ?s) (base_domain ?s) (fetch_log c) (tasks c)
            (crawl_data ?s) (calls c)"
      using assms(1) by (simp add: crawl_inv_def)
    then have 1: "state_ok lib D (insert (rq_url ?r) (crawled_urls ?s)) (base_domain ?s)
            (fetch_log c @ [?r]) (tasks c) (crawl_data ?s) (calls c)"
      using new dom depth r by (intro state_ok_enter) auto
    have "task_ok D (insert ?n (crawled_urls ?s)) (length (calls c))
            (?t\<lparr>t_phase := AwaitCrawl4ai ?n\<rparr>)"
      using tk depth by (simp add: task_ok_def)
    then have "state_ok lib D (insert ?n (crawled_urls ?s)) (base_domain ?s)
            (fetch_log c @ [?r]) ((tasks c)[i := ?t\<lparr>t_phase := AwaitCrawl4ai ?n\<rparr>])
            (crawl_data ?s) (calls c)"
      using 1 r(1) state_ok_task_update by metis
    then show ?thesis by (simp add: crawl_inv_def set_phase_def)
  qed
  show ?thesis
    unfolding crawl_website_comprehensive_def Let_def
    using fin go md by auto
qed

lemma crawl_inv_fallback:
  assumes "crawl_inv lib D c" "u \<in> crawled_urls (self c)" "d \<le> D"
  shows "crawl_inv lib D (c\<lparr>fetch_log := fetch_log c @ [httpx_request u d]\<rparr>)"
  using assms state_ok_fallback [of lib D "crawled_urls (self c)" "base_domain (self c)"
      "fetch_log c" "tasks c" "crawl_data (self c)" "calls c" "httpx_request u d"]
  by (simp add: crawl_inv_def httpx_request_def)

lemma crawl_inv_running:
  assumes "crawl_inv lib D c" "i < length (tasks c)"
  shows "crawl_inv lib D (set_phase c i Running)"
  using assms by (intro crawl_inv_set_phase) auto

lemma task_waiting:
  assumes "crawl_inv lib D c" "i < length (tasks c)"
    and "t_phase (tasks c ! i) = AwaitCrawl4ai u \<or> t_phase (tasks c ! i) = AwaitHttpx u"
  shows "u \<in> crawled_urls (self c)" "t_current_depth (tasks c ! i) \<le> D"
  using crawl_inv_task [OF assms(1,2)] assms(3) by (auto simp: task_ok_def)

lemma crawl_inv_page:
  assumes "crawl_inv lib D c" "i < length (tasks c)"
    and "t_phase (tasks c ! i) = AwaitCrawl4ai u \<or> t_phase (tasks c ! i) = AwaitHttpx u"
  shows "crawl_inv lib D (process_page lib (set_phase c i Running) i u h t)"
proof -
  have "t_current_depth (tasks (set_phase c i Running) ! i) \<le> D"
    using task_waiting(2) [OF assms] assms(2) by (simp add: set_phase_nth)
  then show ?thesis
    using crawl_inv_running [OF assms(1,2)] assms(2) task_waiting(1) [OF assms]
    by (intro crawl_inv_process_page) auto
qed

lemma crawl_inv_step:
  assumes "crawl_inv lib D c"
  shows "crawl_inv lib D (step lib c ev)"
proof (cases ev)
  case (Tick d)
  then show ?thesis using assms by simp
next
  case (Acquire i)
  show ?thesis
  proof (cases "i < length (tasks c)")
    case False
    then show ?thesis using assms Acquire by simp
  next
    case True
    have "crawl_inv lib D (set_phase c i Sleeping)"
      if "t_phase (tasks c ! i) = WaitSemaphore"
      using assms True crawl_inv_task [OF assms True] that
      by (intro crawl_inv_set_phase) (auto simp: task_ok_def)
    then show ?thesis
      using assms Acquire True by (auto split: phase.splits owner.splits)
  qed
next
  case (Wake i)
  show ?thesis
  proof (cases "i < length (tasks c)")
    case False
    then show ?thesis using assms Wake by simp
  next
    case True
    have "crawl_inv lib D (crawl_website_comprehensive lib (set_phase c i Running) i)"
      using crawl_inv_running [OF assms True] True by (intro crawl_inv_enter) auto
    then show ?thesis
      using assms Wake True by (auto split: phase.splits)
  qed
next
  case (Crawl4aiDone i r)
  show ?thesis
  proof (cases "i < length (tasks c)")
    case False
    then show ?thesis using assms Crawl4aiDone by simp
  next
    case True
    show ?thesis
    proof (cases "t_phase (tasks c ! i)")
      case (AwaitCrawl4ai u)
      have w: "u \<in> crawled_urls (self c)" "t_current_depth (tasks c ! i) \<le> D"
        using task_waiting [OF assms True] AwaitCrawl4ai by auto
      have ok: "crawl_inv lib D (process_page lib (set_phase c i Running) i u h t)" for h t
        using assms True AwaitCrawl4ai by (intro crawl_inv_page) auto
      have "crawl_inv lib D (set_phase c i (AwaitHttpx u))"
        using assms True w by (intro crawl_inv_set_phase) auto
      then have fb: "crawl_inv lib D ((set_phase c i (AwaitHttpx u))
          \<lparr>fetch_log := fetch_log c @ [httpx_request u (t_current_depth (tasks c ! i))]\<rparr>)"
        using crawl_inv_fallback [of lib D "set_phase c i (AwaitHttpx u)" u
            "t_current_depth (tasks c ! i)"] w by simp
      show ?thesis
        using Crawl4aiDone True AwaitCrawl4ai ok fb by (simp split: sum.splits prod.splits)
    qed (use assms Crawl4aiDone True in simp_all)
  qed
next
  case (HttpxDone i r)
  show ?thesis
  proof (cases "i < length (tasks c)")
    case False
    then show ?thesis using assms HttpxDone by simp
  next
    case True
    show ?thesis
    proof (cases "t_phase (tasks c ! i)")
      case (AwaitHttpx u)
      have ok: "crawl_inv lib D (process_page lib (set_phase c i Running) i u h t)" for h t
        using assms True AwaitHttpx by (intro crawl_inv_page) auto
      have fin: "crawl_inv lib D (finish c i None)"
        using assms True by (intro crawl_inv_finish) auto
      show ?thesis
        using HttpxDone True AwaitHttpx ok fin by (simp split: sum.splits prod.splits)
    qed (use assms HttpxDone True in simp_all)
  qed
next
  case (GatherDone i)
  show ?thesis
  proof (cases "i < length (tasks c)")
    case False
    then show ?thesis using assms GatherDone by simp
  next
    case True
    have fin: "crawl_inv lib D (finish c i None)"
      using assms True by (intro crawl_inv_finish) auto
    show ?thesis
      using assms GatherDone True fin by (auto split: phase.splits)
  qed
qed

lemma crawl_inv_run:
  "crawl_inv lib D c \<Longrightarrow> crawl_inv lib D (run lib c evs)"
  unfolding run_def by (induction evs arbitrary: c) (simp_all add: crawl_inv_step)

lemma data_ok_empty: "data_ok D V empty_crawl_data"
  by (simp add: data_ok_def empty_crawl_data_def)

lemma crawl_inv_begin:
  "crawl_inv lib (crawl_depth s md) (scrape_website_begin lib (idle s now) url company md)"
proof -
  let ?D = "crawl_depth s md"
  let ?s1 = "(reset_crawl_data (s\<lparr>crawled_urls := {}\<rparr>))\<lparr>base_domain := extract_domain_from_url lib url\<rparr>"
  let ?c0 = "(idle s now)\<lparr>self := ?s1,
      calls := [\<lparr>call_url = url, call_company_name = company,
                 call_crawl_depth = ?D, call_start_time = now, call_result = None\<rparr>],
      tasks := [\<lparr>t_url = url, t_max_depth = ?D, t_current_depth = 0,
                 t_owner = Root 0, t_phase = Running\<rparr>]\<rparr>"
  have "state_ok lib ?D {} (extract_domain_from_url lib url) [] (tasks ?c0) empty_crawl_data (calls ?c0)"
    unfolding state_ok_def
    by (simp add: urls_of_def task_ok_def data_ok_empty call_ok_def outcome_ok_def)
  then have "crawl_inv lib ?D ?c0"
    by (simp add: crawl_inv_def idle_def reset_crawl_data_def)
  then have "crawl_inv lib ?D (crawl_website_comprehensive lib ?c0 0)"
    by (intro crawl_inv_enter) simp_all
  moreover have "scrape_website_begin lib (idle s now) url company md
      = crawl_website_comprehensive lib ?c0 0"
    by (cases md)
      (simp_all add: scrape_website_begin_def Let_def idle_def crawl_depth_def
        reset_crawl_data_def)
  ultimately show ?thesis by simp
qed

lemma crawl_inv_session:
  "crawl_inv lib (crawl_depth s md) (session lib s now url company md evs)"
  unfolding session_def by (intro crawl_inv_run crawl_inv_begin)

lemma crawl_subpages_frame [simp]:
  "fetch_log (crawl_subpages c i links md cd) = fetch_log c"
  "clock (crawl_subpages c i links md cd) = clock c"
  "length (calls (crawl_subpages c i links md cd)) = length (calls c)"
  "crawled_urls (self (crawl_subpages c i links md cd)) = crawled_urls (self c)"
  "base_domain (self (crawl_subpages c i links md cd)) = base_domain (self c)"
  "max_depth (self (crawl_subpages c i links md cd)) = max_depth (self c)"
  "timeout (self (crawl_subpages c i links md cd)) = timeout (self c)"
  "max_concurrent (self (crawl_subpages c i links md cd)) = max_concurrent (self c)"
  by (simp_all add: crawl_subpages_def Let_def)

lemma process_page_frame [simp]:
  "fetch_log (process_page lib c i u h t) = fetch_log c"
  "clock (process_page lib c i u h t) = clock c"
  "length (calls (process_page lib c i u h t)) = length (calls c)"
  "crawled_urls (self (process_page lib c i u h t)) = crawled_urls (self c)"
  "base_domain (self (process_page lib c i u h t)) = base_domain (self c)"
  "max_depth (self (process_page lib c i u h t)) = max_depth (self c)"
  "timeout (self (process_page lib c i u h t)) = timeout (self c)"
  "max_concurrent (self (process_page lib c i u h t)) = max_concurrent (self c)"
  by (simp_all add: process_page_def Let_def)

lemma crawl_website_comprehensive_frame [simp]:
  "clock (crawl_website_comprehensive lib c i) = clock c"
  "length (calls (crawl_website_comprehensive lib c i)) = length (calls c)"
  "base_domain (self (crawl_website_comprehensive lib c i)) = base_domain (self c)"
  "max_depth (self (crawl_website_comprehensive lib c i)) = max_depth (self c)"
  "timeout (self (crawl_website_comprehensive lib c i)) = timeout (self c)"
  "max_concurrent (self (crawl_website_comprehensive lib c i)) = max_concurrent (self c)"
  by (simp_all add: crawl_website_comprehensive_def Let_def)

lemma step_frame [simp]:
  "length (calls (step lib c ev)) = length (calls c)"
  "base_domain (self (step lib c ev)) = base_domain (self c)"
  "max_depth (self (step lib c ev)) = max_depth (self c)"
  "timeout (self (step lib c ev)) = timeout (self c)"
  "max_concurrent (self (step lib c ev)) = max_concurrent (self c)"
  by (cases ev; simp split: phase.splits owner.splits sum.splits prod.splits)+

lemma run_frame [simp]:
  "length (calls (run lib c evs)) = length (calls c)"
  "base_domain (self (run lib c evs)) = base_domain (self c)"
  "max_depth (self (run lib c evs)) = max_depth (self c)"
  "timeout (self (run lib c evs)) = timeout (self c)"
  "max_concurrent (self (run lib c evs)) = max_concurrent (self c)"
  unfolding run_def by (induction evs arbitrary: c; simp)+

lemma begin_frame [simp]:
  "length (calls (scrape_website_begin lib c url company md)) = Suc (length (calls c))"
  "base_domain (self (scrape_website_begin lib c url company md)) = extract_domain_from_url lib url"
  "max_depth (self (scrape_website_begin lib c url company md)) = max_depth (self c)"
  "timeout (self (scrape_website_begin lib c url company md)) = timeout (self c)"
  "max_concurrent (self (scrape_website_begin lib c url company md)) = max_concurrent (self c)"
  by (simp_all add: scrape_website_begin_def Let_def reset_crawl_data_def)

lemma session_frame [simp]:
  "length (calls (session lib s now url company md evs)) = 1"
  "base_domain (self (session lib s now url company md evs)) = extract_domain_from_url lib url"
  "max_depth (self (session lib s now url company md evs)) = max_depth s"
  "timeout (self (session lib s now url company md evs)) = timeout s"
  "max_concurrent (self (session lib s now url company md evs)) = max_concurrent s"
  by (simp_all add: session_def idle_def)

lemma filter_update_count:
  "i < length xs \<Longrightarrow>
   length (filter P (xs[i := x])) + (if P (xs ! i) then 1 else 0)
     = length (filter P xs) + (if P x then 1 else 0)"
proof (induction xs arbitrary: i)
  case Nil
  then show ?case by simp
next
  case (Cons a xs)
  then show ?case by (cases i) auto
qed

lemma awaiting_set_phase:
  assumes "i < length (tasks c)"
  shows "awaiting_primary (tasks (set_phase c i ph)) u
         = others c i u + (if ph = AwaitCrawl4ai u then 1 else 0)"
proof -
  let ?P = "\<lambda>t. t_phase t = AwaitCrawl4ai u"
  have 1: "length (filter ?P ((tasks c)[i := (tasks c ! i)\<lparr>t_phase := ph\<rparr>]))
          + (if ?P (tasks c ! i) then 1 else 0)
        = length (filter ?P (tasks c)) + (if ph = AwaitCrawl4ai u then 1 else 0)"
    using filter_update_count [OF assms, of ?P "(tasks c ! i)\<lparr>t_phase := ph\<rparr>"] by simp
  have 2: "length (filter ?P ((tasks c)[i := (tasks c ! i)\<lparr>t_phase := Running\<rparr>]))
          + (if ?P (tasks c ! i) then 1 else 0)
        = length (filter ?P (tasks c))"
    using filter_update_count [OF assms, of ?P "(tasks c ! i)\<lparr>t_phase := Running\<rparr>"] by simp
  show ?thesis
    using 1 2 by (simp add: awaiting_primary_def others_def set_phase_def split: if_splits)
qed

lemma awaiting_tasks:
  assumes "i < length (tasks c)"
  shows "awaiting_primary (tasks c) u
         = others c i u + (if t_phase (tasks c ! i) = AwaitCrawl4ai u then 1 else 0)"
proof -
  have "tasks (set_phase c i (t_phase (tasks c ! i))) = tasks c"
    by (simp add: set_phase_def)
  then show ?thesis
    using awaiting_set_phase [OF assms, of "t_phase (tasks c ! i)" u] by simp
qed

lemma set_phase_twice:
  "tasks (set_phase (set_phase c i p) i q) = tasks (set_phase c i q)"
  by (cases "i < length (tasks c)") (simp_all add: set_phase_def list_update_beyond)

lemma others_set_phase [simp]: "others (set_phase c i ph) i u = others c i u"
  by (simp add: others_def set_phase_twice)

lemma others_self [simp]: "others (c\<lparr>self := s\<rparr>) i u = others c i u"
  by (simp add: others_def set_phase_def)

lemma awaiting_finish:
  "i < length (tasks c) \<Longrightarrow> awaiting_primary (tasks (finish c i out)) u = others c i u"
  by (simp add: awaiting_set_phase)

lemma awaiting_crawl_subpages:
  "i < length (tasks c) \<Longrightarrow>
   awaiting_primary (tasks (crawl_subpages c i links md cd)) u = others c i u"
  by (simp add: crawl_subpages_def Let_def awaiting_finish)
    (simp add: awaiting_primary_def awaiting_set_phase [unfolded awaiting_primary_def] o_def)

lemma awaiting_process_page:
  "i < length (tasks c) \<Longrightarrow>
   awaiting_primary (tasks (process_page lib c i n h t)) u = others c i u"
  by (simp add: process_page_def Let_def awaiting_set_phase awaiting_crawl_subpages)

lemma unseen_not_awaited:
  assumes "crawl_inv lib D c" "n \<notin> crawled_urls (self c)"
  shows "awaiting_primary (tasks c) n = 0" "count_list (urls_of Httpx (fetch_log c)) n = 0"
proof -
  have "\<forall>t\<in>set (tasks c). t_phase t \<noteq> AwaitCrawl4ai n"
    using crawl_invD(6) [OF assms(1)] assms(2) by (auto simp: task_ok_def)
  then show "awaiting_primary (tasks c) n = 0"
    by (simp add: awaiting_primary_def filter_empty_conv)
  show "count_list (urls_of Httpx (fetch_log c)) n = 0"
    using crawl_invD(5) [OF assms(1)] assms(2) by (auto simp: count_list_0_iff)
qed

lemma fallback_inv_leq:
  assumes "fallback_inv c"
    and "\<And>u. awaiting_primary (tasks c') u + count_list (urls_of Httpx (fetch_log c')) u
           \<le> awaiting_primary (tasks c) u + count_list (urls_of Httpx (fetch_log c)) u"
  shows "fallback_inv c'"
  using assms unfolding fallback_inv_def by (meson order_trans)

lemma fallback_inv_enter:
  assumes "crawl_inv lib D c" "fallback_inv c" "i < length (tasks c)"
    "t_phase (tasks c ! i) = Sleeping \<or> t_phase (tasks c ! i) = Running"
  shows "fallback_inv (crawl_website_comprehensive lib (set_phase c i Running) i)"
proof -
  let ?c = "set_phase c i Running"
  let ?n = "normalize_url lib (t_url (tasks ?c ! i))"
  have old: "awaiting_primary (tasks c) u = others c i u" for u
    using awaiting_tasks [OF assms(3), of u] assms(4) by auto
  have len: "i < length (tasks ?c)" using assms(3) by simp
  show ?thesis
  proof (cases "crawl_website_comprehensive lib ?c i = finish ?c i None")
    case True
    then show ?thesis
      using old assms(3)
      by (intro fallback_inv_leq [OF assms(2)]) (simp add: set_phase_twice awaiting_set_phase)
  next
    case False
    then have new: "?n \<notin> crawled_urls (self c)"
      and eq: "crawl_website_comprehensive lib ?c i =
        (set_phase ?c i (AwaitCrawl4ai ?n))
          \<lparr>self := (self c)\<lparr>crawled_urls := insert ?n (crawled_urls (self c))\<rparr>,
           fetch_log := fetch_log c @ [crawl4ai_request (self c) ?n (t_current_depth (tasks ?c ! i))]\<rparr>"
      by (auto simp: crawl_website_comprehensive_def Let_def split: if_splits)
    have zero: "others c i ?n = 0" "count_list (urls_of Httpx (fetch_log c)) ?n = 0"
      using unseen_not_awaited [OF assms(1) new] old by auto
    have "awaiting_primary (tasks (crawl_website_comprehensive lib ?c i)) u
          + count_list (urls_of Httpx (fetch_log (crawl_website_comprehensive lib ?c i))) u \<le> 1" for u
      unfolding eq
      using assms(2) [unfolded fallback_inv_def, rule_format, of u] old [of u] zero len
      by (cases "u = ?n")
        (simp_all add: awaiting_set_phase urls_of_append crawl4ai_request_def)
    then show ?thesis by (simp add: fallback_inv_def)
  qed
qed

lemma fallback_inv_clock [simp]: "fallback_inv (c\<lparr>clock := x\<rparr>) = fallback_inv c"
  by (simp add: fallback_inv_def)

lemma fallback_inv_semaphores [simp]: "fallback_inv (c\<lparr>semaphores := x\<rparr>) = fallback_inv c"
  by (simp add: fallback_inv_def)

lemma fallback_inv_quiet:
  assumes "fallback_inv c" "i < length (tasks c)"
    and "\<And>u. awaiting_primary (tasks c') u = others c i u"
    and "fetch_log c' = fetch_log c"
  shows "fallback_inv c'"
proof (rule fallback_inv_leq [OF assms(1)])
  fix u
  show "awaiting_primary (tasks c') u + count_list (urls_of Httpx (fetch_log c')) u
        \<le> awaiting_primary (tasks c) u + count_list (urls_of Httpx (fetch_log c)) u"
    using awaiting_tasks [OF assms(2), of u] assms(3,4) by simp
qed

lemma fallback_inv_step:
  assumes "crawl_inv lib D c" "fallback_inv c"
  shows "fallback_inv (step lib c ev)"
proof (cases ev)
  case (Tick d)
  then show ?thesis using assms by simp
next
  case (Acquire i)
  show ?thesis
  proof (cases "i < length (tasks c)")
    case False
    then show ?thesis using assms Acquire by simp
  next
    case True
    have "fallback_inv (set_phase c i Sleeping)"
      using True by (intro fallback_inv_quiet [OF assms(2) True]) (simp_all add: awaiting_set_phase)
    then show ?thesis
      using assms Acquire True by (auto split: phase.splits owner.splits)
  qed
next
  case (Wake i)
  show ?thesis
  proof (cases "i < length (tasks c)")
    case False
    then show ?thesis using assms Wake by simp
  next
    case True
    have "fallback_inv (crawl_website_comprehensive lib (set_phase c i Running) i)"
      if "t_phase (tasks c ! i) = Sleeping"
      using assms True that by (intro fallback_inv_enter) auto
    then show ?thesis
      using assms Wake True by (auto split: phase.splits)
  qed
next
  case (Crawl4aiDone i r)
  show ?thesis
  proof (cases "i < length (tasks c)")
    case False
    then show ?thesis using assms Crawl4aiDone by simp
  next
    case True
    show ?thesis
    proof (cases "t_phase (tasks c ! i)")
      case (AwaitCrawl4ai u0)
      have ok: "fallback_inv (process_page lib (set_phase c i Running) i u0 h t)" for h t
        using True
        by (intro fallback_inv_quiet [OF assms(2) True]) (simp_all add: awaiting_process_page)
      have fb: "fallback_inv ((set_phase c i (AwaitHttpx u0))
          \<lparr>fetch_log := fetch_log c @ [httpx_request u0 (t_current_depth (tasks c ! i))]\<rparr>)"
      proof (rule fallback_inv_leq [OF assms(2)])
        fix u
        show "awaiting_primary (tasks ((set_phase c i (AwaitHttpx u0))
                \<lparr>fetch_log := fetch_log c @ [httpx_request u0 (t_current_depth (tasks c ! i))]\<rparr>)) u
              + count_list (urls_of Httpx (fetch_log ((set_phase c i (AwaitHttpx u0))
                \<lparr>fetch_log := fetch_log c @ [httpx_request u0 (t_current_depth (tasks c ! i))]\<rparr>))) u
              \<le> awaiting_primary (tasks c) u + count_list (urls_of Httpx (fetch_log c)) u"
          using awaiting_tasks [OF True, of u] AwaitCrawl4ai True
          by (simp add: awaiting_set_phase urls_of_append httpx_request_def)
      qed
      show ?thesis
        using Crawl4aiDone True AwaitCrawl4ai ok fb by (simp split: sum.splits prod.splits)
    qed (use assms Crawl4aiDone True in simp_all)
  qed
next
  case (HttpxDone i r)
  show ?thesis
  proof (cases "i < length (tasks c)")
    case False
    then show ?thesis using assms HttpxDone by simp
  next
    case True
    show ?thesis
    proof (cases "t_phase (tasks c ! i)")
      case (AwaitHttpx u0)
      have ok: "fallback_inv (process_page lib (set_phase c i Running) i u0 h t)" for h t
        using True
        by (intro fallback_inv_quiet [OF assms(2) True]) (simp_all add: awaiting_process_page)
      have fin: "fallback_inv (finish c i None)"
        using True by (intro fallback_inv_quiet [OF assms(2) True]) (simp_all add: awaiting_set_phase)
      show ?thesis
        using HttpxDone True AwaitHttpx ok fin by (simp split: sum.splits prod.splits)
    qed (use assms HttpxDone True in simp_all)
  qed
next
  case (GatherDone i)
  show ?thesis
  proof (cases "i < length (tasks c)")
    case False
    then show ?thesis using assms GatherDone by simp
  next
    case True
    have fin: "fallback_inv (finish c i None)"
      using True by (intro fallback_inv_quiet [OF assms(2) True]) (simp_all add: awaiting_set_phase)
    show ?thesis
      using assms GatherDone True fin by (auto split: phase.splits)
  qed
qed

lemma both_inv_run:
  "crawl_inv lib D c \<Longrightarrow> fallback_inv c \<Longrightarrow> fallback_inv (run lib c evs)"
  unfolding run_def
  by (induction evs arbitrary: c) (simp_all add: crawl_inv_step fallback_inv_step)

lemma count_le_one_distinct:
  "(\<forall>u. count_list xs u \<le> 1) \<Longrightarrow> distinct xs"
proof (induction xs)
  case Nil
  then show ?case by simp
next
  case (Cons x xs)
  have "count_list xs u \<le> 1" for u
    using Cons.prems [rule_format, of u] by (simp split: if_splits)
  moreover have "count_list xs x = 0"
    using Cons.prems [rule_format, of x] by simp
  ultimately show ?case using Cons.IH by (simp add: count_list_0_iff)
qed

lemma fallback_inv_distinct:
  "fallback_inv c \<Longrightarrow> distinct (urls_of Httpx (fetch_log c))"
proof (rule count_le_one_distinct, rule allI)
  fix u
  assume "fallback_inv c"
  then have "awaiting_primary (tasks c) u + count_list (urls_of Httpx (fetch_log c)) u \<le> 1"
    by (simp add: fallback_inv_def)
  then show "count_list (urls_of Httpx (fetch_log c)) u \<le> 1" by simp
qed

end
